theory Spec2Isabelle
  imports Main "HOL-Library.Word"
begin

unbundle bit_operations_syntax

section \<open>Data model\<close>

text \<open>
  A \<^verbatim>\<open>Uint8Array\<close>'s contents are a list of bytes. A JavaScript string is a sequence of
  UTF-16 code units; \<open>lit\<close> turns an ASCII literal of the source into one.
\<close>

type_synonym byte = "8 word"
type_synonym jsstring = "16 word list"

definition lit :: "string \<Rightarrow> jsstring" where
  "lit s = map (\<lambda>c. of_nat (of_char c)) s"

text \<open>
  Every \<^verbatim>\<open>throw\<close> the operations can reach is a constructor: the ones of
  \<^verbatim>\<open>src/index.ts\<close> first, then the ones of the imported helpers.
\<close>

datatype error =
    InvalidMnemonic  \<comment> \<open>\<^verbatim>\<open>normalize\<close>: \<^verbatim>\<open>Error('Invalid mnemonic')\<close>, the word count\<close>
  | WordlistExpected2048  \<comment> \<open>\<^verbatim>\<open>getCoder\<close>: \<^verbatim>\<open>'Worlist: expected array of 2048 strings'\<close>\<close>
  | WordlistNonString  \<comment> \<open>\<^verbatim>\<open>getCoder\<close>: \<^verbatim>\<open>'Wordlist: non-string element'\<close>\<close>
  | BytesLength  \<comment> \<open>\<^verbatim>\<open>assert.bytes\<close>: the length is not one of the expected ones\<close>
  | WrongPositiveInteger  \<comment> \<open>\<^verbatim>\<open>assert.number\<close>: \<^verbatim>\<open>'Wrong positive integer'\<close>\<close>
  | InvalidEntropy  \<comment> \<open>the generators: \<^verbatim>\<open>TypeError('Invalid entropy')\<close>\<close>
  | NullMatch  \<comment> \<open>\<^verbatim>\<open>generateMnemonicQBCK\<close>: \<^verbatim>\<open>.map\<close> of the \<^verbatim>\<open>null\<close> that \<^verbatim>\<open>match\<close> returns\<close>
  | EntropySourceFailed  \<comment> \<open>\<^verbatim>\<open>getQRNGEntropy\<close>: the request or the reading of its answer\<close>
  | Uint16RangeError  \<comment> \<open>\<^verbatim>\<open>new Uint16Array(buffer)\<close> on a buffer of odd byte length\<close>
  | WrongInteger  \<comment> \<open>\<^verbatim>\<open>assertNumber\<close>\<close>
  | DigitOutsideAlphabet  \<comment> \<open>\<^verbatim>\<open>alphabet.encode\<close>\<close>
  | AlphabetDecodeInput  \<comment> \<open>\<^verbatim>\<open>alphabet.decode\<close>: the first element is not a string\<close>
  | AlphabetNotString  \<comment> \<open>\<^verbatim>\<open>alphabet.decode\<close>: an element is not a string\<close>
  | UnknownLetter  \<comment> \<open>\<^verbatim>\<open>alphabet.decode\<close>: the word is not in the wordlist\<close>
  | Radix2Bits  \<comment> \<open>\<^verbatim>\<open>radix2\<close>: the number of bits is not in 1..32\<close>
  | Radix2Carry  \<comment> \<open>\<^verbatim>\<open>radix2\<close>: carry overflow\<close>
  | WrongFrom  \<comment> \<open>\<^verbatim>\<open>convertRadix2\<close>, as the six that follow\<close>
  | WrongTo
  | CarryOverflow
  | InvalidDataWord
  | CarryOverflowPos
  | ExcessPadding
  | NonZeroPadding
  | InvalidChecksum  \<comment> \<open>\<^verbatim>\<open>checksum.decode\<close>\<close>

definition bind_err :: "error + 'a \<Rightarrow> ('a \<Rightarrow> error + 'b) \<Rightarrow> error + 'b" where
  "bind_err r f = (case r of Inl e \<Rightarrow> Inl e | Inr x \<Rightarrow> f x)"

text \<open>\<^verbatim>\<open>xs.map(f)\<close> with an \<open>f\<close> that may throw: the first throw ends the map.\<close>

fun map_err :: "('a \<Rightarrow> error + 'b) \<Rightarrow> 'a list \<Rightarrow> error + 'b list" where
  "map_err f [] = Inr []"
| "map_err f (x # xs) =
     (case f x of
        Inl e \<Rightarrow> Inl e
      | Inr y \<Rightarrow> (case map_err f xs of Inl e \<Rightarrow> Inl e | Inr ys \<Rightarrow> Inr (y # ys)))"

text \<open>
  A value that an array of the source can hold at run time: a string, \<^verbatim>\<open>undefined\<close>, or a
  value of another type, which carries the text \<^verbatim>\<open>Array.prototype.join\<close> prints for it
  (empty for \<^verbatim>\<open>null\<close>). A wordlist is an array whose slots hold a value or are holes
  (\<open>None\<close>): the declared type is \<^verbatim>\<open>string[]\<close>, and \<^verbatim>\<open>getCoder\<close> checks at run time
  what it holds.
\<close>

datatype jsval = JString jsstring | JUndefined | JOther jsstring

type_synonym wordlist = "jsval option list"

text \<open>\<^verbatim>\<open>wordlist[i]\<close>: a hole and an index past the end read as \<^verbatim>\<open>undefined\<close>.\<close>

definition wl_get :: "wordlist \<Rightarrow> nat \<Rightarrow> jsval" where
  "wl_get wordlist i =
     (if i < length wordlist then (case wordlist ! i of None \<Rightarrow> JUndefined | Some v \<Rightarrow> v)
      else JUndefined)"

text \<open>
  \<^verbatim>\<open>wordlist.indexOf(word)\<close> for a string \<open>word\<close>: the first slot that holds this string,
  \<open>-1\<close> when there is none.
\<close>

fun indexOf :: "wordlist \<Rightarrow> jsstring \<Rightarrow> int" where
  "indexOf [] word = -1"
| "indexOf (x # xs) word =
     (if x = Some (JString word) then 0
      else (let r = indexOf xs word in if r = -1 then -1 else r + 1))"

text \<open>
  A \<^verbatim>\<open>Uint8Array\<close> given as a mnemonic is a view of \<open>byteLength\<close> bytes at
  \<open>byteOffset\<close> of its \<open>buffer\<close>; the source reads \<^verbatim>\<open>mnemonic.buffer\<close>, the whole of it.
\<close>

record uint8array =
  buffer :: "byte list"
  byteOffset :: nat
  byteLength :: nat

datatype mnemonic = MString jsstring | MBytes uint8array

text \<open>A fresh \<^verbatim>\<open>Uint8Array\<close> over the whole of a new buffer.\<close>

definition owning :: "byte list \<Rightarrow> uint8array" where
  "owning bs = \<lparr>buffer = bs, byteOffset = 0, byteLength = length bs\<rparr>"

text \<open>
  \<^verbatim>\<open>new Uint16Array(indices).buffer\<close> read as bytes, and \<^verbatim>\<open>new Uint16Array(buffer)\<close>:
  each element is two bytes, the low byte first (a little-endian host); a number is stored
  modulo \<open>2 ^ 16\<close>; a buffer of odd byte length is a \<^verbatim>\<open>RangeError\<close>.
\<close>

definition uint16_bytes :: "int list \<Rightarrow> byte list" where
  "uint16_bytes indices =
     concat (map (\<lambda>i. [of_int ((i mod 65536) mod 256), of_int ((i mod 65536) div 256)]) indices)"

fun uint16_elems :: "byte list \<Rightarrow> nat list" where
  "uint16_elems (lo # hi # bs) = (unat lo + 256 * unat hi) # uint16_elems bs"
| "uint16_elems bs = []"

definition uint16_of_buffer :: "byte list \<Rightarrow> error + nat list" where
  "uint16_of_buffer buf =
     (if odd (length buf) then Inl Uint16RangeError else Inr (uint16_elems buf))"

text \<open>\<^verbatim>\<open>typeof v === 'string'\<close>.\<close>

definition is_string :: "jsval \<Rightarrow> bool" where
  "is_string v = (case v of JString s \<Rightarrow> True | _ \<Rightarrow> False)"

section \<open>The imported coders\<close>

text \<open>
  \<^verbatim>\<open>getCoder\<close> builds its coder from \<^verbatim>\<open>chain\<close>, \<^verbatim>\<open>checksum\<close>, \<^verbatim>\<open>radix2\<close> and
  \<^verbatim>\<open>alphabet\<close> of the package \<^verbatim>\<open>@scure/base\<close>, which is imported and not part of the
  sources. The specification describes what they do in its sections 4.3 (RadixCodec) and
  4.4 (WordlistTable): bits are read most significant first in groups of 11, the encoder
  stops at the exact bit boundary, the decoder packs the groups back into bytes, the last
  byte of the decoded buffer is compared with the recomputed checksum, and an unknown word
  fails. The definitions of this section follow those words and, for the order of the
  checks and the errors, the package's functions statement by statement.
\<close>

text \<open>
  Modelled from the spec: the type \<^verbatim>\<open>Coder\<close> of \<^verbatim>\<open>@scure/base\<close>, a pair of an encoder
  and a decoder, either of which may throw.
\<close>

record ('a, 'b) coder =
  encode :: "'a \<Rightarrow> error + 'b"
  decode :: "'b \<Rightarrow> error + 'a"

text \<open>
  Modelled from the spec: \<^verbatim>\<open>chain\<close> of \<^verbatim>\<open>@scure/base\<close>, for two coders: encoding runs
  the first coder and then the second, decoding the second and then the first (section
  2, data flow). \<^verbatim>\<open>chain(a, b, c)\<close> is \<open>chain (chain a b) c\<close>.
\<close>

definition chain :: "('a, 'b) coder \<Rightarrow> ('b, 'c) coder \<Rightarrow> ('a, 'c) coder" where
  "chain c1 c2 =
     \<lparr>encode = (\<lambda>x. bind_err (encode c1 x) (encode c2)),
      decode = (\<lambda>y. bind_err (decode c2 y) (decode c1))\<rparr>"

text \<open>
  Modelled from the spec: \<^verbatim>\<open>Number.isSafeInteger\<close>, the test of \<^verbatim>\<open>assertNumber\<close> in
  \<^verbatim>\<open>@scure/base\<close>, on a number that is a natural number.
\<close>

definition isSafeInteger :: "nat \<Rightarrow> bool" where
  "isSafeInteger n = (n \<le> 2 ^ 53 - 1)"

text \<open>
  Modelled from the spec: \<^verbatim>\<open>radix2carry\<close> of \<^verbatim>\<open>@scure/base\<close>, the largest number of
  bits that \<^verbatim>\<open>convertRadix2\<close> holds in \<open>carry\<close>.
\<close>

definition radix2carry :: "nat \<Rightarrow> nat \<Rightarrow> nat" where
  "radix2carry from to = from + (to - gcd from to)"

text \<open>
  Modelled from the spec: the inner loop of \<^verbatim>\<open>convertRadix2\<close> in \<^verbatim>\<open>@scure/base\<close>,
  \<^verbatim>\<open>for (; pos >= to; pos -= to) res.push(((carry >> (pos - to)) & mask) >>> 0)\<close>, which
  emits the groups of \<open>to\<close> bits that \<open>carry\<close> holds, the most significant first (section
  4.3). \<open>carry\<close> is a 32-bit integer: \<^verbatim>\<open>>>\<close> is the arithmetic shift, a shift count is
  taken modulo 32, \<^verbatim>\<open>>>> 0\<close> reads the result unsigned. \<^verbatim>\<open>convertRadix2\<close> has rejected
  \<open>to \<le> 0\<close> before the loop runs.
\<close>

function emit :: "nat \<Rightarrow> 32 word \<Rightarrow> nat \<Rightarrow> nat list \<Rightarrow> nat \<times> nat list" where
  "emit to carry pos res =
     (if 0 < to \<and> to \<le> pos
      then emit to carry (pos - to)
             (res @ [unat (signed_drop_bit ((pos - to) mod 32) carry AND (2 ^ to - 1))])
      else (pos, res))"
  by pat_completeness auto
termination
  by (relation "measure (\<lambda>(to, carry, pos, res). pos)") auto

declare emit.simps [simp del]

text \<open>
  Modelled from the spec: the outer loop of \<^verbatim>\<open>convertRadix2\<close> in \<^verbatim>\<open>@scure/base\<close>,
  \<^verbatim>\<open>for (const n of data)\<close>: each element is checked, shifted into \<open>carry\<close>, the complete
  groups are emitted and \<open>carry\<close> is cut back to the \<open>pos\<close> bits that remain.
\<close>

fun radix_loop ::
  "nat \<Rightarrow> nat \<Rightarrow> 32 word \<Rightarrow> nat \<Rightarrow> nat list \<Rightarrow> nat list \<Rightarrow> error + (32 word \<times> nat \<times> nat list)"
where
  "radix_loop from to carry pos res [] = Inr (carry, pos, res)"
| "radix_loop from to carry pos res (n # data) =
     (if \<not> isSafeInteger n then Inl WrongInteger
      else if 2 ^ from \<le> n then Inl InvalidDataWord
      else let carry1 = push_bit (from mod 32) carry OR word_of_nat n in
        if 32 < pos + from then Inl CarryOverflowPos
        else let (pos2, res2) = emit to carry1 (pos + from) res;
                 carry2 = carry1 AND (2 ^ pos2 - 1)
             in radix_loop from to carry2 pos2 res2 data)"

text \<open>
  Modelled from the spec: \<^verbatim>\<open>convertRadix2(data, from, to, padding)\<close> of \<^verbatim>\<open>@scure/base\<close>,
  the transform between groups of \<open>from\<close> bits and groups of \<open>to\<close> bits (section 4.3).
  Without padding, left-over bits must be fewer than \<open>from\<close> and zero (the encoder "must
  stop reading at the exact total-bit boundary"); with padding they are filled up with
  zeros to one more group (the decoder's last byte).
\<close>

definition convertRadix2 :: "nat list \<Rightarrow> nat \<Rightarrow> nat \<Rightarrow> bool \<Rightarrow> error + nat list" where
  "convertRadix2 data from to padding =
     (if from \<le> 0 \<or> 32 < from then Inl WrongFrom
      else if to \<le> 0 \<or> 32 < to then Inl WrongTo
      else if 32 < radix2carry from to then Inl CarryOverflow
      else (case radix_loop from to 0 0 [] data of
              Inl e \<Rightarrow> Inl e
            | Inr (carry, pos, res) \<Rightarrow>
                (let carry' = push_bit ((to - pos) mod 32) carry AND (2 ^ to - 1) in
                 if \<not> padding \<and> from \<le> pos then Inl ExcessPadding
                 else if \<not> padding \<and> carry' \<noteq> 0 then Inl NonZeroPadding
                 else if padding \<and> 0 < pos then Inr (res @ [unat carry'])
                 else Inr res)))"

text \<open>
  Modelled from the spec: \<^verbatim>\<open>radix2(bits, revPadding)\<close> of \<^verbatim>\<open>@scure/base\<close>, the
  RadixCodec of section 4.3: bytes to groups of \<open>bits\<close> bits and back.
  \<^verbatim>\<open>Uint8Array.from\<close> stores each number modulo 256.
\<close>

definition radix2 :: "nat \<Rightarrow> bool \<Rightarrow> error + (byte list, nat list) coder" where
  "radix2 bits revPadding =
     (if bits \<le> 0 \<or> 32 < bits then Inl Radix2Bits
      else if 32 < radix2carry 8 bits \<or> 32 < radix2carry bits 8 then Inl Radix2Carry
      else Inr
        \<lparr>encode = (\<lambda>bytes. convertRadix2 (map unat bytes) 8 bits (\<not> revPadding)),
         decode = (\<lambda>digits. bind_err (convertRadix2 digits bits 8 revPadding)
                     (\<lambda>r. Inr (map word_of_nat r)))\<rparr>)"

text \<open>\<^verbatim>\<open>xs[i]\<close> of a typed array: \<^verbatim>\<open>undefined\<close> (\<open>None\<close>) past the end.\<close>

definition nth_opt :: "'a list \<Rightarrow> nat \<Rightarrow> 'a option" where
  "nth_opt xs i = (if i < length xs then Some (xs ! i) else None)"

text \<open>
  Modelled from the spec: \<^verbatim>\<open>checksum(len, fn)\<close> of \<^verbatim>\<open>@scure/base\<close>. The encoder appends
  the first \<open>len\<close> bytes of \<open>fn(data)\<close>, into a zero-filled array; the decoder splits the
  last \<open>len\<close> bytes off, recomputes \<open>fn\<close> over the rest and compares, index by index; a
  mismatch fails (section 4.3, decode).
\<close>

definition checksum :: "nat \<Rightarrow> (byte list \<Rightarrow> byte list) \<Rightarrow> (byte list, byte list) coder" where
  "checksum len fn =
     \<lparr>encode = (\<lambda>data.
        Inr (data @ take len (fn data) @ replicate (len - length (fn data)) 0)),
      decode = (\<lambda>data.
        let payload = take (length data - len) data;
            newChecksum = take len (fn payload);
            oldChecksum = drop (length data - len) data
        in if list_ex (\<lambda>i. nth_opt newChecksum i \<noteq> nth_opt oldChecksum i) [0..<len]
           then Inl InvalidChecksum else Inr payload)\<rparr>"

text \<open>
  Modelled from the spec: \<^verbatim>\<open>alphabet(wordlist)\<close> of \<^verbatim>\<open>@scure/base\<close>, the lookups of the
  WordlistTable (section 4.4): the encoder maps an index to the value in its slot, the
  decoder a word to its first index, and an unknown word fails.
\<close>

definition alphabet :: "wordlist \<Rightarrow> (nat list, jsval list) coder" where
  "alphabet wordlist =
     \<lparr>encode = map_err (\<lambda>i.
        if \<not> isSafeInteger i then Inl WrongInteger
        else if length wordlist \<le> i then Inl DigitOutsideAlphabet
        else Inr (wl_get wordlist i)),
      decode = (\<lambda>input.
        case input of
          [] \<Rightarrow> Inr []
        | first # rest \<Rightarrow>
            if \<not> is_string first then Inl AlphabetDecodeInput
            else map_err (\<lambda>letter.
              case letter of
                JString s \<Rightarrow>
                  (let index = indexOf wordlist s
                   in if index = -1 then Inl UnknownLetter else Inr (nat index))
              | _ \<Rightarrow> Inl AlphabetNotString) input)\<rparr>"

section \<open>The operations of \<^verbatim>\<open>src/index.ts\<close>\<close>

text \<open>
  What the module takes from its host and its other imports, as parameters:
  \<^verbatim>\<open>String.prototype.normalize('NFKD')\<close>, \<^verbatim>\<open>TextEncoder.encode\<close> (UTF-8), the hash
  functions \<^verbatim>\<open>sha256\<close> and \<^verbatim>\<open>sha512\<close>, and \<^verbatim>\<open>pbkdf2\<close> and \<^verbatim>\<open>pbkdf2Async\<close> of
  \<^verbatim>\<open>@noble/hashes\<close>, whose arguments are the hash function, the password, the salt,
  \<open>c\<close> and \<open>dkLen\<close>. The value of \<open>pbkdf2Async\<close> is the one its promise resolves to.
  The two are separate parameters: nothing is assumed about how they relate.
\<close>

record externals =
  normalizeNFKD :: "jsstring \<Rightarrow> jsstring"
  utf8 :: "jsstring \<Rightarrow> byte list"
  sha256 :: "byte list \<Rightarrow> byte list"
  sha512 :: "byte list \<Rightarrow> byte list"
  pbkdf2 :: "(byte list \<Rightarrow> byte list) \<Rightarrow> byte list \<Rightarrow> byte list \<Rightarrow> nat \<Rightarrow> nat \<Rightarrow> byte list"
  pbkdf2Async :: "(byte list \<Rightarrow> byte list) \<Rightarrow> byte list \<Rightarrow> byte list \<Rightarrow> nat \<Rightarrow> nat \<Rightarrow> byte list"

text \<open>
  \<^verbatim>\<open>nfkd\<close> (lines 41-44). Its argument is a string by its type, so the \<^verbatim>\<open>typeof\<close> test
  passes.
\<close>

definition nfkd :: "externals \<Rightarrow> jsstring \<Rightarrow> jsstring" where
  "nfkd X str = normalizeNFKD X str"

text \<open>\<^verbatim>\<open>str.split(' ')\<close>: the pieces between the separators; an empty string is one piece.\<close>

fun js_split :: "'a \<Rightarrow> 'a list \<Rightarrow> 'a list list" where
  "js_split sep [] = [[]]"
| "js_split sep (c # cs) =
     (if c = sep then [] # js_split sep cs
      else (case js_split sep cs of [] \<Rightarrow> [[c]] | w # ws \<Rightarrow> (c # w) # ws))"

text \<open>
  \<^verbatim>\<open>normalize\<close> (lines 46-51); 32 is the code unit of the space.
\<close>

definition normalize_str :: "externals \<Rightarrow> jsstring \<Rightarrow> error + (jsstring \<times> jsstring list)" where
  "normalize_str X str =
     (let norm = nfkd X str;
          words = js_split 32 norm
      in if length words \<notin> {12, 15, 18, 21, 24} then Inl InvalidMnemonic
         else Inr (norm, words))"

text \<open>
  \<^verbatim>\<open>assertEntropy\<close> (lines 53-55): \<^verbatim>\<open>assert.bytes(entropy, 16, 20, 24, 28, 32)\<close> throws
  unless the length is one of those listed.
\<close>

definition assertEntropy :: "byte list \<Rightarrow> error + unit" where
  "assertEntropy entropy =
     (if length entropy \<in> {16, 20, 24, 28, 32} then Inr () else Inl BytesLength)"

text \<open>
  \<^verbatim>\<open>calcChecksum\<close> (lines 90-96), in two steps.
  \<^verbatim>\<open>bitsLeft = 8 - entropy.length / 4\<close> is a fraction when the length is no multiple of 4
  and negative beyond 32; a shift takes its count truncated towards zero, modulo 32.
\<close>

definition bitsLeft_count :: "nat \<Rightarrow> nat" where
  "bitsLeft_count len =
     (if len \<le> 32 then (32 - len) div 4
      else nat ((- int ((len - 32) div 4)) mod 32))"

text \<open>
  \<^verbatim>\<open>new Uint8Array([(sha256(entropy)[0] >> bitsLeft) << bitsLeft])\<close>: the shifts work on
  32-bit integers, the array keeps the low byte. (\<open>[0]\<close> of an empty array is
  \<^verbatim>\<open>undefined\<close>, 0 in a shift.)
\<close>

definition calcChecksum :: "externals \<Rightarrow> byte list \<Rightarrow> byte list" where
  "calcChecksum X entropy =
     (let bitsLeft = bitsLeft_count (length entropy);
          h0 = (case sha256 X entropy of [] \<Rightarrow> 0 | b # bs \<Rightarrow> (ucast b :: 32 word))
      in [ucast (push_bit bitsLeft (signed_drop_bit bitsLeft h0))])"

text \<open>
  \<^verbatim>\<open>getCoder\<close> (lines 98-109). The wordlist is an array by its type;
  \<^verbatim>\<open>wordlist.forEach\<close> visits the slots that hold a value and skips the holes.
\<close>

definition getCoder :: "externals \<Rightarrow> wordlist \<Rightarrow> error + (byte list, jsval list) coder" where
  "getCoder X wordlist =
     (if length wordlist \<noteq> 2 ^ 11 \<or> \<not> is_string (wl_get wordlist 0)
      then Inl WordlistExpected2048
      else if list_ex (\<lambda>slot. case slot of None \<Rightarrow> False | Some i \<Rightarrow> \<not> is_string i) wordlist
      then Inl WordlistNonString
      else bind_err (radix2 11 True)
             (\<lambda>r. Inr (chain (chain (checksum 1 (calcChecksum X)) r) (alphabet wordlist))))"

text \<open>
  \<^verbatim>\<open>mnemonicToEntropy\<close> (lines 124-137).
  In the branch of a binary mnemonic, \<^verbatim>\<open>getCoder(wordlist)\<close> is evaluated before the
  argument of \<^verbatim>\<open>.decode(...)\<close>, so before \<^verbatim>\<open>new Uint16Array(mnemonic.buffer)\<close>.
\<close>

definition mnemonicToEntropy :: "externals \<Rightarrow> mnemonic \<Rightarrow> wordlist \<Rightarrow> error + byte list" where
  "mnemonicToEntropy X mnemonic wordlist =
     bind_err
       (case mnemonic of
          MString str \<Rightarrow>
            bind_err (normalize_str X str) (\<lambda>(norm, words).
            bind_err (getCoder X wordlist) (\<lambda>coder.
              decode coder (map JString words)))
        | MBytes u \<Rightarrow>
            bind_err (getCoder X wordlist) (\<lambda>coder.
            bind_err (uint16_of_buffer (buffer u)) (\<lambda>idx.
              decode coder (map (wl_get wordlist) idx))))
       (\<lambda>entropy. bind_err (assertEntropy entropy) (\<lambda>_. Inr entropy))"

text \<open>
  \<^verbatim>\<open>entropyToMnemonic\<close> (lines 152-158).
  After \<^verbatim>\<open>getCoder\<close> every value in the wordlist is a string, so a word that is not a
  string (the \<^verbatim>\<open>undefined\<close> read from a hole) is at no index: \<^verbatim>\<open>indexOf\<close> gives \<open>-1\<close>.
\<close>

definition entropyToMnemonic :: "externals \<Rightarrow> byte list \<Rightarrow> wordlist \<Rightarrow> error + uint8array" where
  "entropyToMnemonic X entropy wordlist =
     bind_err (assertEntropy entropy) (\<lambda>_.
     bind_err (getCoder X wordlist) (\<lambda>coder.
     bind_err (encode coder entropy) (\<lambda>words.
       let indices = map (\<lambda>word. case word of JString s \<Rightarrow> indexOf wordlist s | _ \<Rightarrow> -1) words
       in Inr (owning (uint16_bytes indices)))))"

text \<open>
  \<^verbatim>\<open>assert.number(strength)\<close> of \<^verbatim>\<open>@noble/hashes\<close>, on a number that is an integer: it
  throws unless the number is a safe integer and not negative.
\<close>

definition assert_number :: "int \<Rightarrow> error + unit" where
  "assert_number n = (if n < 0 \<or> 2 ^ 53 - 1 < n then Inl WrongPositiveInteger else Inr ())"

text \<open>
  \<^verbatim>\<open>generateMnemonic\<close> (lines 65-69). \<open>randomBytes n\<close> stands for the \<open>n\<close> bytes that the
  random source of the host returns in this call.
\<close>

definition generateMnemonic ::
  "externals \<Rightarrow> (nat \<Rightarrow> byte list) \<Rightarrow> wordlist \<Rightarrow> int \<Rightarrow> error + uint8array"
where
  "generateMnemonic X randomBytes wordlist strength =
     bind_err (assert_number strength) (\<lambda>_.
       if strength mod 32 \<noteq> 0 \<or> 256 < strength then Inl InvalidEntropy
       else entropyToMnemonic X (randomBytes (nat (strength div 8))) wordlist)"

text \<open>
  \<^verbatim>\<open>getQRNGEntropy\<close> (lines 10-24). \<open>request n\<close> stands for the outcome of the request
  for \<open>n\<close> bytes: \<^verbatim>\<open>data.data.result[0]\<close>, a string by the declared type, or the failure
  of \<^verbatim>\<open>fetch\<close>, of \<^verbatim>\<open>response.json()\<close> or of reading the answer.
\<close>

definition getQRNGEntropy :: "(nat \<Rightarrow> error + jsstring) \<Rightarrow> int \<Rightarrow> error + jsstring" where
  "getQRNGEntropy request strength =
     bind_err (assert_number strength) (\<lambda>_.
       if strength mod 32 \<noteq> 0 \<or> 256 < strength then Inl InvalidEntropy
       else request (nat (strength div 8)))"

text \<open>
  \<^verbatim>\<open>randomBinary\<close> (lines 26-32): \<open>n\<close> characters \<open>0\<close> (48) or \<open>1\<close> (49); \<open>draw i\<close> stands
  for the \<open>i\<close>-th \<^verbatim>\<open>Math.round(Math.random())\<close> being 1.
\<close>

definition randomBinary :: "(nat \<Rightarrow> bool) \<Rightarrow> nat \<Rightarrow> jsstring" where
  "randomBinary draw n = map (\<lambda>i. if draw i then 49 else 48) [0..<n]"

text \<open>
  \<^verbatim>\<open>parseInt(s.charAt(i), 2)\<close> as an operand of \<^verbatim>\<open>^\<close>: 1 for the character \<open>1\<close>; 0 for
  the character \<open>0\<close> and for \<^verbatim>\<open>NaN\<close>, which is what any other character and the empty
  string past the end give.
\<close>

definition charAt_bit :: "jsstring \<Rightarrow> nat \<Rightarrow> bool" where
  "charAt_bit s i = (i < length s \<and> s ! i = 49)"

text \<open>
  \<^verbatim>\<open>binaryToByte\<close> (lines 34-36): \<^verbatim>\<open>parseInt(bin, 2)\<close> of a string of binary digits.
\<close>

definition binaryToByte :: "jsstring \<Rightarrow> nat" where
  "binaryToByte bin = foldl (\<lambda>acc c. 2 * acc + (if c = 49 then 1 else 0)) 0 bin"

text \<open>
  \<^verbatim>\<open>s.match(/(.{1,8})/g)\<close> on a string of binary digits that is not empty: the pieces of
  eight characters, the last one shorter when the length is no multiple of eight.
\<close>

function chunks8 :: "'a list \<Rightarrow> 'a list list" where
  "chunks8 xs = (if xs = [] then [] else take 8 xs # chunks8 (drop 8 xs))"
  by pat_completeness auto
termination
  by (relation "measure length") auto

declare chunks8.simps [simp del]

text \<open>
  \<^verbatim>\<open>generateMnemonicQBCK\<close> (lines 71-88). The loop runs over the characters of
  \<open>qbckEntropy\<close> and appends \<open>0\<close> or \<open>1\<close>; \<^verbatim>\<open>match\<close> returns \<^verbatim>\<open>null\<close> on the empty string,
  and \<^verbatim>\<open>.map\<close> of it throws; \<^verbatim>\<open>Uint8Array.from\<close> stores each number modulo 256. A throw
  is the rejection of the promise, a value what it resolves to.
\<close>

definition generateMnemonicQBCK ::
  "externals \<Rightarrow> (nat \<Rightarrow> error + jsstring) \<Rightarrow> (nat \<Rightarrow> bool) \<Rightarrow> wordlist \<Rightarrow> int
     \<Rightarrow> error + uint8array"
where
  "generateMnemonicQBCK X request draw wordlist strength =
     bind_err (assert_number strength) (\<lambda>_.
       if strength mod 32 \<noteq> 0 \<or> 256 < strength then Inl InvalidEntropy
       else bind_err (getQRNGEntropy request strength) (\<lambda>qbckEntropy.
         let localEntropy = randomBinary draw (nat strength);
             bitwiseEntropy = map (\<lambda>i.
               if charAt_bit qbckEntropy i \<noteq> charAt_bit localEntropy i then 49 else 48)
               [0..<length qbckEntropy]
         in if bitwiseEntropy = [] then Inl NullMatch
            else entropyToMnemonic X
                   (map (\<lambda>bin. word_of_nat (binaryToByte bin)) (chunks8 bitwiseEntropy))
                   wordlist))"

text \<open>\<^verbatim>\<open>validateMnemonic\<close> (lines 163-170): the \<^verbatim>\<open>catch\<close> takes every error.\<close>

definition validateMnemonic :: "externals \<Rightarrow> mnemonic \<Rightarrow> wordlist \<Rightarrow> bool" where
  "validateMnemonic X mnemonic wordlist =
     (case mnemonicToEntropy X mnemonic wordlist of Inl e \<Rightarrow> False | Inr entropy \<Rightarrow> True)"

text \<open>\<^verbatim>\<open>salt\<close> (line 172).\<close>

definition salt :: "externals \<Rightarrow> jsstring \<Rightarrow> jsstring" where
  "salt X passphrase = nfkd X (lit ''mnemonic'' @ passphrase)"

text \<open>
  \<^verbatim>\<open>words.join(' ')\<close>: \<^verbatim>\<open>undefined\<close> is printed as the empty string, a value of another
  type as its text.
\<close>

definition join_text :: "jsval \<Rightarrow> jsstring" where
  "join_text v = (case v of JString s \<Rightarrow> s | JUndefined \<Rightarrow> [] | JOther t \<Rightarrow> t)"

fun js_join :: "'a \<Rightarrow> 'a list list \<Rightarrow> 'a list" where
  "js_join sep [] = []"
| "js_join sep [w] = w"
| "js_join sep (w # v # ws) = w @ sep # js_join sep (v # ws)"

text \<open>\<^verbatim>\<open>encodeMnemonicForSeedDerivation\<close> (lines 213-225).\<close>

definition encodeMnemonicForSeedDerivation ::
  "externals \<Rightarrow> mnemonic \<Rightarrow> wordlist \<Rightarrow> error + byte list"
where
  "encodeMnemonicForSeedDerivation X mnemonic wordlist =
     (case mnemonic of
        MString str \<Rightarrow> bind_err (normalize_str X str) (\<lambda>(norm, words). Inr (utf8 X norm))
      | MBytes u \<Rightarrow>
          bind_err (uint16_of_buffer (buffer u)) (\<lambda>idx.
            Inr (utf8 X (js_join 32 (map (\<lambda>i. join_text (wl_get wordlist i)) idx)))))"

text \<open>
  \<^verbatim>\<open>mnemonicToSeed\<close> (lines 185-188) and \<^verbatim>\<open>mnemonicToSeedSync\<close> (lines 201-208).
  \<^verbatim>\<open>pbkdf2\<close> is handed the salt as a string and encodes it as UTF-8 itself. An error of
  \<^verbatim>\<open>encodeMnemonicForSeedDerivation\<close> is thrown by both before any promise is made.
\<close>

definition mnemonicToSeed :: "externals \<Rightarrow> mnemonic \<Rightarrow> wordlist \<Rightarrow> jsstring \<Rightarrow> error + byte list" where
  "mnemonicToSeed X mnemonic wordlist passphrase =
     bind_err (encodeMnemonicForSeedDerivation X mnemonic wordlist)
       (\<lambda>encodedMnemonicUint8Array.
          Inr (pbkdf2Async X (sha512 X) encodedMnemonicUint8Array
                 (utf8 X (salt X passphrase)) 2048 64))"

definition mnemonicToSeedSync ::
  "externals \<Rightarrow> mnemonic \<Rightarrow> wordlist \<Rightarrow> jsstring \<Rightarrow> error + byte list"
where
  "mnemonicToSeedSync X mnemonic wordlist passphrase =
     bind_err (encodeMnemonicForSeedDerivation X mnemonic wordlist)
       (\<lambda>encodedMnemonicUint8Array.
          Inr (pbkdf2 X (sha512 X) encodedMnemonicUint8Array
                 (utf8 X (salt X passphrase)) 2048 64))"

section \<open>Auxiliary notions for the proofs\<close>

text \<open>
  The number that a list of digits of \<open>b\<close> bits each, most significant first, denotes.
\<close>

fun val :: "nat \<Rightarrow> nat list \<Rightarrow> nat" where
  "val b [] = 0"
| "val b (x # xs) = x * 2 ^ (b * length xs) + val b xs"

text \<open>The three checks of \<^verbatim>\<open>getCoder\<close>, as a predicate.\<close>

definition wordlist_ok :: "wordlist \<Rightarrow> bool" where
  "wordlist_ok wl = (length wl = 2048 \<and> is_string (wl_get wl 0)
      \<and> \<not> list_ex (\<lambda>slot. case slot of None \<Rightarrow> False | Some i \<Rightarrow> \<not> is_string i) wl)"

text \<open>\<^verbatim>\<open>sha256(entropy)[0]\<close>, the first byte of the digest.\<close>

definition hash0 :: "externals \<Rightarrow> byte list \<Rightarrow> byte" where
  "hash0 X entropy = (case sha256 X entropy of [] \<Rightarrow> 0 | b # bs \<Rightarrow> b)"

text \<open>The errors that the coders themselves raise.\<close>

definition codec_errors :: "error set" where
  "codec_errors = {WrongInteger, DigitOutsideAlphabet, AlphabetDecodeInput, AlphabetNotString,
     UnknownLetter, WrongFrom, WrongTo, CarryOverflow, InvalidDataWord, CarryOverflowPos,
     ExcessPadding, NonZeroPadding, InvalidChecksum}"

text \<open>
  The two halves of \<^verbatim>\<open>mnemonicToEntropy\<close> once \<^verbatim>\<open>getCoder\<close> has accepted the wordlist.
  \<open>mnemonic_words\<close> is the array that the source hands to \<^verbatim>\<open>getCoder(wordlist).decode\<close>,
  and \<open>packed_digits\<close> what \<^verbatim>\<open>alphabet.decode\<close> makes of it: the packed representation
  of the mnemonic, entropy then checksum, in groups of 11 bits. \<open>decode_digits\<close> is the rest:
  \<^verbatim>\<open>radix2.decode\<close>, \<^verbatim>\<open>checksum.decode\<close> and \<^verbatim>\<open>assertEntropy\<close>.
\<close>

definition mnemonic_words :: "externals \<Rightarrow> mnemonic \<Rightarrow> wordlist \<Rightarrow> error + jsval list" where
  "mnemonic_words X mnemonic wordlist =
     (case mnemonic of
        MString str \<Rightarrow> bind_err (normalize_str X str) (\<lambda>(norm, words). Inr (map JString words))
      | MBytes u \<Rightarrow> bind_err (uint16_of_buffer (buffer u)) (\<lambda>idx. Inr (map (wl_get wordlist) idx)))"

definition packed_digits :: "externals \<Rightarrow> mnemonic \<Rightarrow> wordlist \<Rightarrow> error + nat list" where
  "packed_digits X mnemonic wordlist =
     bind_err (mnemonic_words X mnemonic wordlist) (decode (alphabet wordlist))"

definition decode_digits :: "externals \<Rightarrow> nat list \<Rightarrow> error + byte list" where
  "decode_digits X digits =
     bind_err (bind_err (bind_err (convertRadix2 digits 11 8 True) (\<lambda>r. Inr (map word_of_nat r)))
                        (decode (checksum 1 (calcChecksum X))))
       (\<lambda>entropy. bind_err (assertEntropy entropy) (\<lambda>_. Inr entropy))"

text \<open>
  Concrete stand-ins for the host functions, and a wordlist of 2048 distinct non-empty
  strings (\<open>a\<close>, \<open>aa\<close>, \<open>aaa\<close>, ...), on which the theorems below are instantiated.
\<close>

definition demo_externals :: externals where
  "demo_externals =
     \<lparr>normalizeNFKD = (\<lambda>s. s),
      utf8 = map ucast,
      sha256 = (\<lambda>bs. replicate 32 (of_nat (length bs) + 165)),
      sha512 = (\<lambda>bs. replicate 64 (of_nat (length bs) + 90)),
      pbkdf2 = (\<lambda>h pw s c dkLen. take dkLen (h (pw @ s) @ replicate dkLen 0)),
      pbkdf2Async = (\<lambda>h pw s c dkLen. take dkLen (h (pw @ s) @ replicate dkLen 0))\<rparr>"

definition demo_words :: "jsstring list" where
  "demo_words = map (\<lambda>i. replicate (Suc i) 97) [0..<2048]"

definition demo_wordlist :: wordlist where
  "demo_wordlist = map (\<lambda>s. Some (JString s)) demo_words"

definition demo_phrase :: jsstring where
  "demo_phrase = lit ''a a a a a a a a a a a a''"

text \<open>
  A second stand-in, which normalises as NFKD does on two characters: \<open>U+00E9\<close> (233, e
  with acute) becomes \<open>e\<close> followed by the combining acute \<open>U+0301\<close> (101, 769), and the
  no-break space \<open>U+00A0\<close> (160) becomes a space. \<open>accent_words\<close> is the wordlist above with
  the decomposed \<open>e\<close> with acute as word 11 and the composed one as word 15.
\<close>

definition decompose :: "jsstring \<Rightarrow> jsstring" where
  "decompose s =
     concat (map (\<lambda>c. if c = 233 then [101, 769] else if c = 160 then [32] else [c]) s)"

definition demo_externals_nfkd :: externals where
  "demo_externals_nfkd = demo_externals\<lparr>normalizeNFKD := decompose\<rparr>"

definition accent_words :: "jsstring list" where
  "accent_words = demo_words[11 := [101, 769], 15 := [233]]"

definition accent_wordlist :: wordlist where
  "accent_wordlist = map (\<lambda>s. Some (JString s)) accent_words"

text \<open>
  Two strings that hold a no-break space: eleven times \<open>a\<close> between spaces, a no-break
  space and the composed \<open>e\<close> with acute, which is 11 pieces as written and 12 once
  normalised; and twelve times \<open>a\<close> between spaces, a no-break space and another \<open>a\<close>, which
  is 12 pieces as written and 13 once normalised.
\<close>

definition nbsp_phrase :: jsstring where
  "nbsp_phrase = [97, 32, 97, 32, 97, 32, 97, 32, 97, 32, 97, 32, 97, 32, 97, 32, 97, 32, 97, 32,
     97, 160, 233]"

definition nbsp_phrase13 :: jsstring where
  "nbsp_phrase13 = [97, 32, 97, 32, 97, 32, 97, 32, 97, 32, 97, 32, 97, 32, 97, 32, 97, 32, 97, 32,
     97, 32, 97, 160, 97]"

text \<open>
  Two phrases over \<open>accent_words\<close>: eleven times word 0 and word 11, and the same with
  word 15 in the last place.
\<close>

definition accent_phrase :: jsstring where
  "accent_phrase = [97, 32, 97, 32, 97, 32, 97, 32, 97, 32, 97, 32, 97, 32, 97, 32, 97, 32, 97, 32,
     97, 32, 101, 769]"

definition accent_phrase_flipped :: jsstring where
  "accent_phrase_flipped = [97, 32, 97, 32, 97, 32, 97, 32, 97, 32, 97, 32, 97, 32, 97, 32, 97, 32,
     97, 32, 97, 32, 233]"

text \<open>
  Two phrases over \<open>demo_words\<close>: eleven times word 0 and then word 11 (twelve times \<open>a\<close>),
  and the same with word 10 (eleven times \<open>a\<close>) in the last place.
\<close>

definition demo_valid_phrase :: jsstring where
  "demo_valid_phrase = [97, 32, 97, 32, 97, 32, 97, 32, 97, 32, 97, 32, 97, 32, 97, 32, 97, 32,
     97, 32, 97, 32, 97, 97, 97, 97, 97, 97, 97, 97, 97, 97, 97, 97]"

definition demo_flipped_phrase :: jsstring where
  "demo_flipped_phrase = [97, 32, 97, 32, 97, 32, 97, 32, 97, 32, 97, 32, 97, 32, 97, 32, 97, 32,
     97, 32, 97, 32, 97, 97, 97, 97, 97, 97, 97, 97, 97, 97, 97]"

section \<open>Lemmas\<close>

subsection \<open>Results and errors\<close>

lemma bind_err_Inr [simp]: "bind_err (Inr x) f = f x"
  by (simp add: bind_err_def)

lemma bind_err_Inl [simp]: "bind_err (Inl e) f = Inl e"
  by (simp add: bind_err_def)

lemma bind_err_InlD: "bind_err r f = Inl e \<Longrightarrow> r = Inl e \<or> (\<exists>x. r = Inr x \<and> f x = Inl e)"
  by (cases r) simp_all

lemma bind_err_assoc: "bind_err (bind_err r f) g = bind_err r (\<lambda>x. bind_err (f x) g)"
  by (cases r) simp_all

lemma map_err_all:
  assumes "list_all (\<lambda>x. f x = Inr (g x)) xs"
  shows "map_err f xs = Inr (map g xs)"
  using assms by (induction xs) simp_all

lemma map_err_Inl: "map_err f xs = Inl e \<Longrightarrow> \<exists>x\<in>set xs. f x = Inl e"
  by (induction xs) (auto split: sum.splits)

lemma map_err_Inr_all:
  "map_err f xs = Inr ys \<Longrightarrow> length ys = length xs \<and> (\<forall>i < length xs. f (xs ! i) = Inr (ys ! i))"
proof (induction xs arbitrary: ys)
  case Nil
  then show ?case by simp
next
  case (Cons x xs)
  then obtain y ys' where y: "f x = Inr y" and r: "map_err f xs = Inr ys'" and e: "ys = y # ys'"
    by (auto split: sum.splits)
  from Cons.IH[OF r] show ?case using y e by (auto simp add: nth_Cons split: nat.splits)
qed

lemma list_all_weaken: "list_all P xs \<Longrightarrow> (\<And>x. P x \<Longrightarrow> Q x) \<Longrightarrow> list_all Q xs"
  by (auto simp add: list_all_iff)


subsection \<open>Digits and the numbers they denote\<close>

lemma val_append: "val b (xs @ ys) = val b xs * 2 ^ (b * length ys) + val b ys"
  by (induction xs) (simp_all add: algebra_simps power_add)

lemma val_snoc: "val b (xs @ [y]) = val b xs * 2 ^ b + y"
  by (simp add: val_append)

lemma val_bound: "list_all (\<lambda>x. x < 2 ^ b) xs \<Longrightarrow> val b xs < 2 ^ (b * length xs)"
proof (induction xs)
  case Nil
  then show ?case by simp
next
  case (Cons x xs)
  then have x: "x + 1 \<le> 2 ^ b" and v: "val b xs < 2 ^ (b * length xs)" by simp_all
  have "x * 2 ^ (b * length xs) + val b xs < (x + 1) * 2 ^ (b * length xs)"
    using v by (simp add: algebra_simps)
  also have "\<dots> \<le> 2 ^ b * 2 ^ (b * length xs)"
    using x by (rule mult_le_mono1)
  finally show ?case by (simp add: power_add)
qed

lemma val_inj:
  assumes "length xs = length ys" "list_all (\<lambda>x. x < 2 ^ b) xs" "list_all (\<lambda>x. x < 2 ^ b) ys"
    "val b xs = val b ys"
  shows "xs = ys"
  using assms
proof (induction xs ys rule: list_induct2)
  case Nil
  then show ?case by simp
next
  case (Cons x xs y ys)
  let ?m = "(2::nat) ^ (b * length ys)"
  have bx: "val b xs < ?m" using Cons.prems(1) Cons.hyps(1) val_bound[of b xs] by simp
  have by': "val b ys < ?m" using Cons.prems(2) val_bound[of b ys] by simp
  have e: "x * ?m + val b xs = y * ?m + val b ys"
    using Cons.prems(3) Cons.hyps(1) by simp
  have "(x * ?m + val b xs) div ?m = x" using bx by simp
  moreover have "(y * ?m + val b ys) div ?m = y" using by' by simp
  ultimately have xy: "x = y" using e by simp
  then have "val b xs = val b ys" using e by simp
  then show ?case using Cons xy by simp
qed

lemma val_last_mod:
  assumes "k \<le> b"
  shows "val b (xs @ [y]) mod 2 ^ k = y mod 2 ^ k"
proof -
  have "(2::nat) ^ b = 2 ^ k * 2 ^ (b - k)" using assms by (simp flip: power_add)
  then have "val b (xs @ [y]) = 2 ^ k * (val b xs * 2 ^ (b - k)) + y"
    by (simp add: val_append)
  then show ?thesis by (simp only: mod_mult_self4)
qed

lemma split_mod: "((C::nat) div 2 ^ a mod 2 ^ b) * 2 ^ a + C mod 2 ^ a = C mod 2 ^ (a + b)"
proof -
  have "C mod 2 ^ (a + b) = C mod (2 ^ a * 2 ^ b)" by (simp add: power_add)
  also have "\<dots> = 2 ^ a * (C div 2 ^ a mod 2 ^ b) + C mod 2 ^ a" by (rule mod_mult2_eq)
  finally show ?thesis by (simp add: mult.commute)
qed

lemma eight_split: "8 * a + p = 8 * b + s \<Longrightarrow> s < 8 \<Longrightarrow> p < 8 \<Longrightarrow> s = p \<and> a = (b::nat)"
  by arith

lemma pow2_mono_nat: "a \<le> b \<Longrightarrow> (2::nat) ^ a \<le> 2 ^ b"
  by (rule power_increasing) simp_all


subsection \<open>The 32-bit steps of convertRadix2\<close>

text \<open>
  Under the bounds that hold in the loop, each operation on the 32-bit \<open>carry\<close> is the
  arithmetic it stands for: nothing wraps around and the sign bit stays clear.
\<close>

lemma nat_push_or:
  fixes x n :: nat
  assumes "n < 2 ^ k"
  shows "push_bit k x OR n = x * 2 ^ k + n"
proof -
  have n: "take_bit k n = n" using assms by (simp add: take_bit_nat_eq_self)
  have "push_bit k x AND n = 0"
  proof (rule bit_eqI)
    fix i
    have "bit n i \<Longrightarrow> i < k" using n by (metis bit_take_bit_iff)
    then show "bit (push_bit k x AND n) i = bit (0::nat) i"
      by (auto simp add: bit_and_iff bit_push_bit_iff)
  qed
  then have "push_bit k x + n = push_bit k x OR n" by (rule disjunctive_add_eq_or)
  then show ?thesis by (simp add: push_bit_eq_mult)
qed

lemma step_clean:
  fixes c :: "32 word"
  shows "unat (c AND (2 ^ p - 1)) = unat c mod 2 ^ p"
proof -
  have "c AND (2 ^ p - 1) = take_bit p c"
    by (simp only: take_bit_eq_mask mask_eq_exp_minus_1)
  then have "unat (c AND (2 ^ p - 1)) = take_bit p (unat c)"
    by (simp only: unsigned_take_bit_eq)
  then show ?thesis by (simp only: take_bit_nat_def)
qed

lemma sdrop_eq:
  fixes c :: "32 word"
  assumes "unat c < 2 ^ 31" 
  shows "signed_drop_bit s c = drop_bit s c"
proof -
  have "take_bit 31 (unat c) = unat c" using assms by (simp add: take_bit_nat_eq_self)
  then have "\<not> bit (unat c) 31" by (metis bit_take_bit_iff less_irrefl)
  then have nb: "\<not> bit c 31" by (simp add: bit_unsigned_iff)
  show ?thesis
  proof (rule bit_word_eqI)
    fix n assume "n < LENGTH(32)"
    then show "bit (signed_drop_bit s c) n = bit (drop_bit s c) n"
      using nb by (auto simp add: bit_signed_drop_bit_iff bit_drop_bit_eq dest: bit_imp_le_length)
  qed
qed

lemma step_emit:
  fixes c :: "32 word"
  assumes "unat c < 2 ^ 31" 
  shows "unat (signed_drop_bit s c AND (2 ^ t - 1)) = (unat c div 2 ^ s) mod 2 ^ t"
proof -
  have "unat (drop_bit s c) = unat c div 2 ^ s"
    by (simp only: unat_drop_bit_eq drop_bit_nat_def)
  then show ?thesis
    by (simp only: step_clean sdrop_eq[OF assms])
qed

lemma len32: "LENGTH(32) = 32" by simp

lemma step_or:
  fixes c :: "32 word"
  assumes "unat c < 2 ^ pos" "n < 2 ^ k" "pos + k < 32"
  shows "unat (push_bit (k mod 32) c OR word_of_nat n) = unat c * 2 ^ k + n"
proof -
  have k: "k mod 32 = k" using assms by simp
  have "unat c * 2 ^ k < 2 ^ pos * 2 ^ k" using assms by simp
  also have "\<dots> = (2::nat) ^ (pos + k)" by (simp add: power_add)
  also have "\<dots> < 2 ^ 32" by (rule power_strict_increasing) (use assms in auto)
  finally have b: "unat c * 2 ^ k < 2 ^ 32" .
  have "(2::nat) ^ k < 2 ^ 32" by (rule power_strict_increasing) (use assms in auto)
  then have "n < 2 ^ 32" using assms(2) by (rule less_trans[rotated])
  then have n32: "unat (word_of_nat n :: 32 word) = n" by (simp add: unat_of_nat)
  have "unat (push_bit k c) = take_bit 32 (push_bit k (unat c))"
    by (simp only: unsigned_push_bit_eq len32)
  also have "\<dots> = take_bit 32 (unat c * 2 ^ k)" by (simp only: push_bit_nat_def)
  also have "\<dots> = unat c * 2 ^ k" using b by (simp only: take_bit_nat_eq_self)
  finally have "unat (push_bit k c) = unat c * 2 ^ k" .
  then show ?thesis
    using nat_push_or[OF assms(2), of "unat c"] by (simp add: k unsigned_or_eq n32 push_bit_eq_mult)
qed

lemma unat_push_small:
  fixes c :: "32 word"
  assumes "unat c < 2 ^ p" "p + k < 32"
  shows "unat (push_bit (k mod 32) c) = unat c * 2 ^ k"
  using step_or[OF assms(1) _ assms(2), of 0] by simp

lemma step_final:
  fixes c :: "32 word"
  assumes "unat c < 2 ^ p" "p \<le> to" "to < 32"
  shows "unat (push_bit ((to - p) mod 32) c AND (2 ^ to - 1)) = unat c * 2 ^ (to - p)"
proof -
  have u: "unat (push_bit ((to - p) mod 32) c) = unat c * 2 ^ (to - p)"
    using assms by (intro unat_push_small[where p = p]) simp_all
  have "unat c * 2 ^ (to - p) < 2 ^ p * 2 ^ (to - p)" using assms(1) by simp
  also have "\<dots> = 2 ^ to" using assms(2) by (simp flip: power_add)
  finally show ?thesis by (simp only: step_clean u) simp
qed


subsection \<open>The loops of convertRadix2\<close>

text \<open>
  The invariant of the loops: the digits emitted so far, followed by the \<open>pos\<close> bits left
  in \<open>carry\<close>, denote the same number as the digits read so far.
\<close>

lemma emit_inv:
  assumes "0 < to" "unat c < 2 ^ 31" "pos < 32"
  shows "\<exists>ds. emit to c pos res = (pos mod to, res @ ds)
           \<and> to * length ds + pos mod to = pos
           \<and> list_all (\<lambda>d. d < 2 ^ to) ds
           \<and> val to ds * 2 ^ (pos mod to) + unat c mod 2 ^ (pos mod to) = unat c mod 2 ^ pos"
  using assms
proof (induction to c pos res rule: emit.induct)
  case (1 to carry pos res)
  show ?case
  proof (cases "to \<le> pos")
    case True
    let ?p = "pos mod to"
    let ?d = "unat (signed_drop_bit ((pos - to) mod 32) carry AND (2 ^ to - 1))"
    have sm: "(pos - to) mod 32 = pos - to" using "1.prems" by simp
    have d: "?d = (unat carry div 2 ^ (pos - to)) mod 2 ^ to"
      using step_emit[OF "1.prems"(2)] by (simp only: sm)
    have pm: "(pos - to) mod to = ?p" using True by (simp add: le_mod_geq)
    from "1.IH" True "1.prems" obtain ds where
      e: "emit to carry (pos - to) (res @ [?d]) = (?p, (res @ [?d]) @ ds)"
      and l: "to * length ds + ?p = pos - to"
      and a: "list_all (\<lambda>d. d < 2 ^ to) ds"
      and v: "val to ds * 2 ^ ?p + unat carry mod 2 ^ ?p = unat carry mod 2 ^ (pos - to)"
      unfolding pm by (metis less_imp_diff_less)
    have e': "emit to carry pos res = (?p, res @ (?d # ds))"
      using True "1.prems"(1) e by (subst emit.simps) simp
    have l': "to * length (?d # ds) + ?p = pos" using l True by simp
    have a': "list_all (\<lambda>d. d < 2 ^ to) (?d # ds)" using a by (simp add: d)
    have "val to (?d # ds) * 2 ^ ?p + unat carry mod 2 ^ ?p
        = ?d * 2 ^ (to * length ds + ?p) + (val to ds * 2 ^ ?p + unat carry mod 2 ^ ?p)"
      by (simp add: algebra_simps power_add)
    also have "\<dots> = ?d * 2 ^ (pos - to) + unat carry mod 2 ^ (pos - to)"
      by (simp only: l v)
    also have "\<dots> = unat carry mod 2 ^ (pos - to + to)"
      by (simp only: d split_mod)
    finally have v': "val to (?d # ds) * 2 ^ ?p + unat carry mod 2 ^ ?p = unat carry mod 2 ^ pos"
      using True by simp
    show ?thesis using e' l' a' v' by blast
  next
    case False
    then have "emit to carry pos res = (pos, res)" by (subst emit.simps) simp
    moreover have "pos mod to = pos" using False by simp
    ultimately show ?thesis by (intro exI[of _ "[]"]) simp
  qed
qed

lemma radix_loop_inv:
  assumes "0 < from" "0 < to" "from + to \<le> 32"
    "list_all (\<lambda>n. n < 2 ^ from) data" "unat c < 2 ^ pos" "pos < to"
  shows "\<exists>c' pos' ds. radix_loop from to c pos res data = Inr (c', pos', res @ ds)
           \<and> pos' < to \<and> unat c' < 2 ^ pos'
           \<and> to * length ds + pos' = pos + from * length data
           \<and> list_all (\<lambda>d. d < 2 ^ to) ds
           \<and> val to ds * 2 ^ pos' + unat c' = unat c * 2 ^ (from * length data) + val from data"
  using assms(4-6)
proof (induction data arbitrary: c pos res)
  case Nil
  then show ?case by (intro exI[of _ c] exI[of _ pos] exI[of _ "[]"]) simp
next
  case (Cons n data)
  let ?c1 = "push_bit (from mod 32) c OR word_of_nat n :: 32 word"
  let ?C1 = "unat c * 2 ^ from + n"
  have n: "n < 2 ^ from" and rest: "list_all (\<lambda>n. n < 2 ^ from) data"
    using Cons.prems(1) by simp_all
  have pf: "pos + from < 32" using Cons.prems(3) assms(1-3) by simp
  have "(2::nat) ^ from \<le> 2 ^ 53" using assms(3) by (intro pow2_mono_nat) simp
  then have safe: "isSafeInteger n" using n by (simp add: isSafeInteger_def)
  have c1: "unat ?c1 = ?C1" using Cons.prems(2) n pf by (rule step_or)
  have "?C1 < (unat c + 1) * 2 ^ from" using n by (simp add: algebra_simps)
  also have "\<dots> \<le> 2 ^ pos * 2 ^ from"
    using Cons.prems(2) by (intro mult_le_mono1) simp
  finally have C1b: "?C1 < 2 ^ (pos + from)" by (simp add: power_add)
  have "(2::nat) ^ (pos + from) \<le> 2 ^ 31" using pf by (intro pow2_mono_nat) simp
  then have c1_31: "unat ?c1 < 2 ^ 31" using C1b c1 by simp
  from emit_inv[OF assms(2) c1_31 pf, of res] obtain ds1 where
    e: "emit to ?c1 (pos + from) res = ((pos + from) mod to, res @ ds1)"
    and l1: "to * length ds1 + (pos + from) mod to = pos + from"
    and a1: "list_all (\<lambda>d. d < 2 ^ to) ds1"
    and v1: "val to ds1 * 2 ^ ((pos + from) mod to) + unat ?c1 mod 2 ^ ((pos + from) mod to)
              = unat ?c1 mod 2 ^ (pos + from)"
    by blast
  let ?p2 = "(pos + from) mod to"
  let ?c2 = "?c1 AND (2 ^ ?p2 - 1)"
  have c2: "unat ?c2 = ?C1 mod 2 ^ ?p2" by (simp only: step_clean c1)
  have c2b: "unat ?c2 < 2 ^ ?p2" by (simp only: c2) simp
  have p2: "?p2 < to" using assms(2) by simp
  have v1': "val to ds1 * 2 ^ ?p2 + unat ?c2 = ?C1"
    using v1 C1b by (simp only: c2 c1) simp
  from Cons.IH[OF rest c2b p2, of "res @ ds1"] obtain c' pos' ds2 where
    r: "radix_loop from to ?c2 ?p2 (res @ ds1) data = Inr (c', pos', (res @ ds1) @ ds2)"
    and p': "pos' < to" and cb: "unat c' < 2 ^ pos'"
    and l2: "to * length ds2 + pos' = ?p2 + from * length data"
    and a2: "list_all (\<lambda>d. d < 2 ^ to) ds2"
    and v2: "val to ds2 * 2 ^ pos' + unat c' = unat ?c2 * 2 ^ (from * length data) + val from data"
    by blast
  have r': "radix_loop from to c pos res (n # data) = Inr (c', pos', res @ (ds1 @ ds2))"
    using safe n pf e r by (simp add: Let_def)
  have l': "to * length (ds1 @ ds2) + pos' = pos + from * length (n # data)"
    using l1 l2 by (simp add: algebra_simps)
  have a': "list_all (\<lambda>d. d < 2 ^ to) (ds1 @ ds2)" using a1 a2 by simp
  have "val to (ds1 @ ds2) * 2 ^ pos' + unat c'
      = val to ds1 * 2 ^ (to * length ds2 + pos') + (val to ds2 * 2 ^ pos' + unat c')"
    by (simp add: val_append algebra_simps power_add)
  also have "\<dots> = val to ds1 * 2 ^ (?p2 + from * length data)
      + (unat ?c2 * 2 ^ (from * length data) + val from data)"
    by (simp only: l2 v2)
  also have "\<dots> = (val to ds1 * 2 ^ ?p2 + unat ?c2) * 2 ^ (from * length data) + val from data"
    by (simp add: algebra_simps power_add)
  also have "\<dots> = ?C1 * 2 ^ (from * length data) + val from data"
    by (simp only: v1')
  also have "\<dots> = unat c * 2 ^ (from * length (n # data)) + val from (n # data)"
    by (simp add: algebra_simps power_add)
  finally have v': "val to (ds1 @ ds2) * 2 ^ pos' + unat c'
      = unat c * 2 ^ (from * length (n # data)) + val from (n # data)" .
  show ?case using r' p' cb l' a' v' by blast
qed

lemma radix2carry_le: "radix2carry from to \<le> from + to"
  by (simp add: radix2carry_def)

lemma convertRadix2_start:
  assumes "0 < from" "0 < to" "from + to \<le> 32" "list_all (\<lambda>n. n < 2 ^ from) data"
  shows "\<exists>c p ds. radix_loop from to 0 0 [] data = Inr (c, p, ds)
           \<and> p = (from * length data) mod to \<and> unat c = val from data mod 2 ^ p
           \<and> to * length ds + p = from * length data
           \<and> list_all (\<lambda>d. d < 2 ^ to) ds
           \<and> val to ds = val from data div 2 ^ p"
proof -
  from radix_loop_inv[OF assms, of 0 0 "[]"] assms(2) obtain c p ds where
    r: "radix_loop from to 0 0 [] data = Inr (c, p, ds)"
    and p: "p < to" and cb: "unat c < 2 ^ p"
    and l: "to * length ds + p = from * length data"
    and a: "list_all (\<lambda>d. d < 2 ^ to) ds"
    and v: "val to ds * 2 ^ p + unat c = val from data"
    by auto
  have "(to * length ds + p) mod to = p" using p by simp
  then have pm: "p = (from * length data) mod to" by (simp only: l)
  have "(val to ds * 2 ^ p + unat c) mod 2 ^ p = unat c" using cb by simp
  then have cm: "unat c = val from data mod 2 ^ p" by (simp only: v)
  have "(val to ds * 2 ^ p + unat c) div 2 ^ p = val to ds" using cb by simp
  then have vd: "val to ds = val from data div 2 ^ p" by (simp only: v)
  show ?thesis using r pm cm l a vd by blast
qed

lemma convertRadix2_guards:
  assumes "0 < from" "0 < to" "from + to \<le> 32"
  shows "convertRadix2 data from to padding =
     (case radix_loop from to 0 0 [] data of
              Inl e \<Rightarrow> Inl e
            | Inr (carry, pos, res) \<Rightarrow>
                (let carry' = push_bit ((to - pos) mod 32) carry AND (2 ^ to - 1) in
                 if \<not> padding \<and> from \<le> pos then Inl ExcessPadding
                 else if \<not> padding \<and> carry' \<noteq> 0 then Inl NonZeroPadding
                 else if padding \<and> 0 < pos then Inr (res @ [unat carry'])
                 else Inr res))"
proof -
  have "radix2carry from to \<le> 32" using radix2carry_le[of "from" to] assms(3) by simp
  then show ?thesis using assms by (simp add: convertRadix2_def)
qed

lemma convertRadix2_padding:
  assumes "0 < from" "0 < to" "from + to \<le> 32" "list_all (\<lambda>n. n < 2 ^ from) data"
  shows "\<exists>ds s. convertRadix2 data from to True = Inr ds \<and> s < to
           \<and> to * length ds = from * length data + s
           \<and> list_all (\<lambda>d. d < 2 ^ to) ds
           \<and> val to ds = val from data * 2 ^ s"
proof -
  from convertRadix2_start[OF assms] obtain c p ds where
    r: "radix_loop from to 0 0 [] data = Inr (c, p, ds)"
    and pm: "p = (from * length data) mod to" and cm: "unat c = val from data mod 2 ^ p"
    and l: "to * length ds + p = from * length data"
    and a: "list_all (\<lambda>d. d < 2 ^ to) ds"
    and v: "val to ds = val from data div 2 ^ p"
    by blast
  have p: "p < to" using pm assms(2) by simp
  have cb: "unat c < 2 ^ p" by (simp only: cm) simp
  have to32: "to < 32" using assms by simp
  let ?x = "unat (push_bit ((to - p) mod 32) c AND (2 ^ to - 1))"
  have x: "?x = unat c * 2 ^ (to - p)" using cb p to32 by (intro step_final) simp_all
  have V: "val from data = val to ds * 2 ^ p + unat c" by (simp only: v cm div_mult_mod_eq)
  show ?thesis
  proof (cases "0 < p")
    case True
    have res: "convertRadix2 data from to True = Inr (ds @ [?x])"
      using True r by (simp add: convertRadix2_guards[OF assms(1-3)])
    have "unat c * 2 ^ (to - p) < 2 ^ p * 2 ^ (to - p)" using cb by simp
    also have "\<dots> = 2 ^ to" using p by (simp flip: power_add)
    finally have xb: "?x < 2 ^ to" by (simp only: x)
    have l': "to * length (ds @ [?x]) = from * length data + (to - p)"
      using l p by simp
    have "val to (ds @ [?x]) = val to ds * 2 ^ to + unat c * 2 ^ (to - p)"
      by (simp only: x val_append) simp
    also have "\<dots> = val to ds * (2 ^ p * 2 ^ (to - p)) + unat c * 2 ^ (to - p)"
      using p by (simp flip: power_add)
    also have "\<dots> = val from data * 2 ^ (to - p)" by (simp only: V) (simp add: algebra_simps)
    finally have v': "val to (ds @ [?x]) = val from data * 2 ^ (to - p)" .
    have a': "list_all (\<lambda>d. d < 2 ^ to) (ds @ [?x])" using a xb by simp
    have "to - p < to" using True p by simp
    then show ?thesis using res l' a' v' by blast
  next
    case False
    then have p0: "p = 0" by simp
    have res: "convertRadix2 data from to True = Inr ds"
      using p0 r by (simp add: convertRadix2_guards[OF assms(1-3)])
    have "val to ds = val from data * 2 ^ 0" using v p0 by simp
    moreover have "to * length ds = from * length data + 0" using l p0 by simp
    ultimately show ?thesis using res a assms(2) by blast
  qed
qed

lemma convertRadix2_exact:
  assumes "0 < from" "0 < to" "from + to \<le> 32" "list_all (\<lambda>n. n < 2 ^ from) data"
    "(from * length data) mod to < from"
    "val from data mod 2 ^ ((from * length data) mod to) = 0"
  shows "\<exists>ds. convertRadix2 data from to False = Inr ds
           \<and> to * length ds + (from * length data) mod to = from * length data
           \<and> list_all (\<lambda>d. d < 2 ^ to) ds
           \<and> val to ds * 2 ^ ((from * length data) mod to) = val from data"
proof -
  from convertRadix2_start[OF assms(1-4)] obtain c p ds where
    r: "radix_loop from to 0 0 [] data = Inr (c, p, ds)"
    and pm: "p = (from * length data) mod to" and cm: "unat c = val from data mod 2 ^ p"
    and l: "to * length ds + p = from * length data"
    and a: "list_all (\<lambda>d. d < 2 ^ to) ds"
    and v: "val to ds = val from data div 2 ^ p"
    by blast
  have c0: "unat c = 0" using cm assms(6) pm by simp
  then have "c = 0" by (simp add: unat_eq_0)
  then have res: "convertRadix2 data from to False = Inr ds"
    using r assms(5) pm by (simp add: convertRadix2_guards[OF assms(1-3)])
  have "val to ds * 2 ^ p = val from data"
    using assms(6) pm by (simp only: v) (simp add: mod_eq_0_iff_dvd)
  then show ?thesis using res l a pm by blast
qed

lemma radix2_roundtrip_nat:
  assumes "list_all (\<lambda>n. n < 2 ^ 8) bytes" "(8 * length bytes) mod 11 < 8"
    "val 8 bytes mod 2 ^ ((8 * length bytes) mod 11) = 0"
  shows "\<exists>ds. convertRadix2 bytes 8 11 False = Inr ds
           \<and> list_all (\<lambda>d. d < 2 ^ 11) ds
           \<and> 11 * length ds + (8 * length bytes) mod 11 = 8 * length bytes
           \<and> convertRadix2 ds 11 8 True = Inr bytes"
proof -
  let ?p = "(8 * length bytes) mod 11"
  have "\<exists>ds. convertRadix2 bytes 8 11 False = Inr ds
           \<and> 11 * length ds + ?p = 8 * length bytes
           \<and> list_all (\<lambda>d. d < 2 ^ 11) ds
           \<and> val 11 ds * 2 ^ ?p = val 8 bytes"
    by (rule convertRadix2_exact[OF _ _ _ assms]) simp_all
  then obtain ds where
    e: "convertRadix2 bytes 8 11 False = Inr ds"
    and l: "11 * length ds + ?p = 8 * length bytes"
    and a: "list_all (\<lambda>d. d < 2 ^ 11) ds"
    and v: "val 11 ds * 2 ^ ?p = val 8 bytes"
    by blast
  have "\<exists>bs s. convertRadix2 ds 11 8 True = Inr bs \<and> s < 8
           \<and> 8 * length bs = 11 * length ds + s
           \<and> list_all (\<lambda>d. d < 2 ^ 8) bs
           \<and> val 8 bs = val 11 ds * 2 ^ s"
    by (rule convertRadix2_padding[OF _ _ _ a]) simp_all
  then obtain bs s where
    d: "convertRadix2 ds 11 8 True = Inr bs" and s: "s < 8"
    and l2: "8 * length bs = 11 * length ds + s"
    and a2: "list_all (\<lambda>d. d < 2 ^ 8) bs"
    and v2: "val 8 bs = val 11 ds * 2 ^ s"
    by blast
  have "8 * length bs + ?p = 8 * length bytes + s" using l l2 by linarith
  then have "s = ?p \<and> length bs = length bytes" using s assms(2) by (rule eight_split)
  then have sp: "s = ?p" and len: "length bs = length bytes" by blast+
  have "val 8 bs = val 8 bytes" using v v2 sp by (simp only:)
  then have "bs = bytes" using len a2 assms(1) by (intro val_inj[where b = 8])
  then show ?thesis using e a l d by blast
qed


subsection \<open>The known vector\<close>

text \<open>
  The known vector of the specification (section 8): 16 bytes \<open>0x7f\<close> with a checksum whose
  top four bits are \<open>1000\<close> give the indices of \<open>legal winner thank year wave sausage worth
  useful legal winner thank yellow\<close> in the English wordlist.
\<close>

lemma known_vector_digits:
  "convertRadix2 [127, 127, 127, 127, 127, 127, 127, 127, 127, 127, 127, 127, 127, 127, 127, 127,
       128] 8 11 False
     = Inr [1019, 2015, 1790, 2039, 1983, 1533, 2031, 1919, 1019, 2015, 1790, 2040]"
  by (simp add: convertRadix2_guards isSafeInteger_def emit.simps Let_def)


subsection \<open>The errors of the coders\<close>

lemma radix_loop_err: "radix_loop f t c p r d = Inl e \<Longrightarrow> e \<in> codec_errors"
proof (induction d arbitrary: c p r)
  case Nil
  then show ?case by simp
next
  case (Cons n d)
  then show ?case
    by (auto simp add: codec_errors_def Let_def split: if_splits prod.splits)
qed

lemma convertRadix2_err: "convertRadix2 d f t p = Inl e \<Longrightarrow> e \<in> codec_errors"
  using radix_loop_err[of f t 0 0 "[]" d e]
  by (auto simp add: convertRadix2_def Let_def codec_errors_def split: if_splits sum.splits prod.splits)

lemma alphabet_decode_err:
  assumes "decode (alphabet wl) ws = Inl e"
  shows "e \<in> codec_errors"
proof (cases ws)
  case Nil
  then show ?thesis using assms by (simp add: alphabet_def)
next
  case (Cons w ws')
  let ?f = "\<lambda>letter. case letter of
                JString s \<Rightarrow>
                  (let index = indexOf wl s
                   in if index = -1 then Inl UnknownLetter else Inr (nat index))
              | _ \<Rightarrow> Inl AlphabetNotString"
  show ?thesis
  proof (cases "is_string w")
    case True
    then have "map_err ?f ws = Inl e" using assms Cons by (simp add: alphabet_def)
    then obtain x where "?f x = Inl e" by (auto dest!: map_err_Inl)
    then show ?thesis
      by (auto simp add: codec_errors_def Let_def split: jsval.splits if_splits)
  next
    case False
    then show ?thesis using assms Cons by (simp add: alphabet_def codec_errors_def)
  qed
qed

lemma alphabet_encode_err: "encode (alphabet wl) ds = Inl e \<Longrightarrow> e \<in> codec_errors"
  by (auto simp add: alphabet_def codec_errors_def split: if_splits dest!: map_err_Inl)

lemma checksum_decode_err: "decode (checksum n f) bs = Inl e \<Longrightarrow> e \<in> codec_errors"
  by (auto simp add: checksum_def codec_errors_def Let_def split: if_splits)

lemma wl_err_not_codec:
  "e \<in> codec_errors \<Longrightarrow> e \<noteq> WordlistExpected2048 \<and> e \<noteq> WordlistNonString \<and> e \<noteq> InvalidMnemonic
      \<and> e \<noteq> BytesLength \<and> e \<noteq> Uint16RangeError"
  by (auto simp add: codec_errors_def)


subsection \<open>The checksum byte\<close>

lemma checksum_byte:
  fixes d :: byte
  assumes "k \<le> 8"
  shows "(ucast (push_bit k (signed_drop_bit k (ucast d :: 32 word))) :: 8 word) = push_bit k (drop_bit k d)"
proof -
  have "unat (ucast d :: 32 word) = take_bit 32 (unat d)" by (simp add: unsigned_ucast_eq)
  moreover have "unat d < 2 ^ 8" using unsigned_less[of d] by simp
  ultimately have "unat (ucast d :: 32 word) < 2 ^ 31" by (simp add: take_bit_nat_eq_self)
  then have s: "signed_drop_bit k (ucast d :: 32 word) = drop_bit k (ucast d)" by (rule sdrop_eq)
  show ?thesis
    unfolding s
  proof (rule bit_word_eqI)
    fix n assume "n < LENGTH(8)"
    then show "bit (ucast (push_bit k (drop_bit k (ucast d :: 32 word))) :: 8 word) n
        = bit (push_bit k (drop_bit k d)) n"
      using assms by (auto simp add: bit_ucast_iff bit_push_bit_iff bit_drop_bit_eq)
  qed
qed

lemma valid_len_cases:
  assumes "length (e::byte list) \<in> {16, 20, 24, 28, 32}"
  shows "bitsLeft_count (length e) = 8 - length e div 4"
    and "(8 * (length e + 1)) mod 11 = 8 - length e div 4"
    and "8 - length e div 4 < 8"
proof -
  from assms consider "length e = 16" | "length e = 20" | "length e = 24"
    | "length e = 28" | "length e = 32" by auto
  then show "bitsLeft_count (length e) = 8 - length e div 4"
    by cases (simp_all add: bitsLeft_count_def)
  from assms consider "length e = 16" | "length e = 20" | "length e = 24"
    | "length e = 28" | "length e = 32" by auto
  then show "(8 * (length e + 1)) mod 11 = 8 - length e div 4"
    by cases simp_all
  from assms consider "length e = 16" | "length e = 20" | "length e = 24"
    | "length e = 28" | "length e = 32" by auto
  then show "8 - length e div 4 < 8"
    by cases simp_all
qed

lemma calcChecksum_byte:
  assumes "length e \<le> 32"
  shows "calcChecksum X e
     = [push_bit (bitsLeft_count (length e)) (drop_bit (bitsLeft_count (length e)) (hash0 X e))]"
proof -
  have k: "bitsLeft_count (length e) \<le> 8" using assms by (simp add: bitsLeft_count_def)
  have h: "(case sha256 X e of [] \<Rightarrow> 0 | b # bs \<Rightarrow> (ucast b :: 32 word)) = ucast (hash0 X e)"
    by (simp add: hash0_def split: list.split)
  show ?thesis
    by (simp only: calcChecksum_def Let_def h checksum_byte[OF k])
qed

lemma calcChecksum_single: "\<exists>c. calcChecksum X e = [c]"
  by (simp add: calcChecksum_def Let_def)

lemma unat_push_byte_mod:
  fixes z :: byte
  shows "unat (push_bit k z) mod 2 ^ k = 0"
proof -
  have "unat (push_bit k z) = take_bit 8 (push_bit k (unat z))"
    by (simp add: unsigned_push_bit_eq)
  also have "\<dots> = push_bit k (take_bit (8 - k) (unat z))"
    by (simp add: take_bit_push_bit)
  finally show ?thesis by (simp add: push_bit_eq_mult)
qed

lemma bytes_lt: "list_all (\<lambda>n. n < 2 ^ 8) (map unat (bs :: byte list))"
proof -
  have "unat b < 2 ^ 8" for b :: byte using unsigned_less[of b] by simp
  then show ?thesis by (simp add: list_all_iff)
qed

lemma word_of_unat_bytes: "map word_of_nat (map unat (bs :: byte list)) = bs"
  by (simp add: map_idI)

lemma unat_byte_of_nat: "l < 2 ^ 8 \<Longrightarrow> unat (word_of_nat l :: byte) = l"
  by (simp add: unat_of_nat)

lemma encode_digits:
  assumes "length e \<in> {16, 20, 24, 28, 32}"
  shows "\<exists>ds. convertRadix2 (map unat (e @ calcChecksum X e)) 8 11 False = Inr ds
           \<and> list_all (\<lambda>d. d < 2 ^ 11) ds
           \<and> 3 * length e = 4 * length ds
           \<and> convertRadix2 ds 11 8 True = Inr (map unat (e @ calcChecksum X e))"
proof -
  let ?k = "8 - length e div 4"
  have le: "length e \<le> 32" using assms by auto
  obtain c where c: "calcChecksum X e = [push_bit ?k c]"
    using calcChecksum_byte[OF le, of X] valid_len_cases(1)[OF assms] by simp
  let ?bytes = "map unat (e @ [push_bit ?k c])"
  have len: "length ?bytes = length e + 1" by simp
  have p: "(8 * length ?bytes) mod 11 = ?k" using valid_len_cases(2)[OF assms] by (simp only: len)
  have "val 8 ?bytes mod 2 ^ ?k = unat (push_bit ?k c) mod 2 ^ ?k"
    using val_last_mod[of ?k 8 "map unat e" "unat (push_bit ?k c)"] by simp
  then have z: "val 8 ?bytes mod 2 ^ ((8 * length ?bytes) mod 11) = 0"
    by (simp only: p unat_push_byte_mod)
  have p8: "(8 * length ?bytes) mod 11 < 8" using valid_len_cases(3)[OF assms] by (simp only: p)
  from radix2_roundtrip_nat[OF bytes_lt p8 z] obtain ds where
    e: "convertRadix2 ?bytes 8 11 False = Inr ds"
    and a: "list_all (\<lambda>d. d < 2 ^ 11) ds"
    and l: "11 * length ds + (8 * length ?bytes) mod 11 = 8 * length ?bytes"
    and d: "convertRadix2 ds 11 8 True = Inr ?bytes"
    by blast
  have lk: "11 * length ds + ?k = 8 * (length e + 1)" using l p by simp
  from assms consider "length e = 16" | "length e = 20" | "length e = 24"
    | "length e = 28" | "length e = 32" by auto
  then have "3 * length e = 4 * length ds" using lk by cases simp_all
  then show ?thesis using e a d by (simp only: c) blast
qed

lemma checksum_encode_calc:
  "encode (checksum 1 (calcChecksum X)) e = Inr (e @ calcChecksum X e)"
  by (simp add: checksum_def calcChecksum_def Let_def)

lemma checksum_decode_calc:
  "decode (checksum 1 (calcChecksum X)) (e @ calcChecksum X e) = Inr e"
  by (simp add: checksum_def calcChecksum_def Let_def nth_opt_def)

lemma checksum_decode_Inr:
  assumes "decode (checksum 1 (calcChecksum X)) B = Inr e"
  shows "B = e @ calcChecksum X e"
proof -
  obtain c where c: "calcChecksum X e = [c]" using calcChecksum_single by blast
  have p: "take (length B - 1) B = e"
    using assms by (auto simp add: checksum_def Let_def split: if_splits)
  have "nth_opt (take 1 (calcChecksum X e)) 0 = nth_opt (drop (length B - 1) B) 0"
    using assms by (auto simp add: checksum_def Let_def p split: if_splits)
  then have "nth_opt (drop (length B - 1) B) 0 = Some c" by (simp add: c nth_opt_def)
  then have ne: "B \<noteq> []" and "drop (length B - 1) B ! 0 = c"
    by (auto simp add: nth_opt_def split: if_splits)
  then have "last B = c" by (simp add: last_conv_nth)
  moreover have "butlast B = e" using p by (simp add: butlast_conv_take)
  ultimately show ?thesis using ne c by (metis append_butlast_last_id)
qed

lemma checksum_decode_mismatch:
  assumes "calcChecksum X e = [c]" "c' \<noteq> c"
  shows "decode (checksum 1 (calcChecksum X)) (e @ [c']) = Inl InvalidChecksum"
  using assms by (simp add: checksum_def Let_def nth_opt_def)


subsection \<open>Wordlists and the coder of getCoder\<close>

lemma radix2_11:
  "radix2 11 True = Inr
        \<lparr>encode = (\<lambda>bytes. convertRadix2 (map unat bytes) 8 11 False),
         decode = (\<lambda>digits. bind_err (convertRadix2 digits 11 8 True)
                     (\<lambda>r. Inr (map word_of_nat r)))\<rparr>"
  using radix2carry_le[of 8 11] radix2carry_le[of 11 8] by (simp add: radix2_def)

lemma getCoder_ok:
  assumes "wordlist_ok wl"
  shows "\<exists>coder. getCoder X wl = Inr coder
    \<and> encode coder = (\<lambda>data. bind_err (bind_err (encode (checksum 1 (calcChecksum X)) data)
          (\<lambda>bytes. convertRadix2 (map unat bytes) 8 11 False)) (encode (alphabet wl)))
    \<and> decode coder = (\<lambda>words. bind_err (decode (alphabet wl) words)
          (\<lambda>digits. bind_err (bind_err (convertRadix2 digits 11 8 True) (\<lambda>r. Inr (map word_of_nat r)))
             (decode (checksum 1 (calcChecksum X)))))"
  using assms by (simp add: getCoder_def wordlist_ok_def radix2_11 chain_def)

lemma getCoder_bad:
  assumes "\<not> wordlist_ok wl"
  shows "getCoder X wl = Inl WordlistExpected2048 \<or> getCoder X wl = Inl WordlistNonString"
  using assms by (auto simp add: getCoder_def wordlist_ok_def)

lemma getCoder_cases:
  "(wordlist_ok wl \<and> (\<exists>coder. getCoder X wl = Inr coder))
   \<or> (\<not> wordlist_ok wl \<and> getCoder X wl \<in> {Inl WordlistExpected2048, Inl WordlistNonString})"
  using getCoder_ok[of wl X] getCoder_bad[of wl X] by auto

lemma getCoder_err_iff:
  "(getCoder X wl \<in> {Inl WordlistExpected2048, Inl WordlistNonString}) = (\<not> wordlist_ok wl)"
  using getCoder_cases[of wl X] by auto

lemma wordlist_ok_iff:
  "wordlist_ok wl = (length wl = 2048 \<and> (\<exists>s. wl_get wl 0 = JString s)
      \<and> list_all (\<lambda>slot. slot = None \<or> (\<exists>s. slot = Some (JString s))) wl)"
proof -
  have a: "is_string v = (\<exists>s. v = JString s)" for v by (cases v) (simp_all add: is_string_def)
  have b: "(case slot of None \<Rightarrow> False | Some i \<Rightarrow> \<not> is_string i)
      = (\<not> (slot = None \<or> (\<exists>s. slot = Some (JString s))))" for slot
    by (cases slot) (simp_all add: a)
  show ?thesis by (simp add: wordlist_ok_def a b list_ex_iff list_all_iff)
qed

lemma wordlist_ok_dense:
  "wordlist_ok (map Some vs) = (length vs = 2048 \<and> list_all is_string vs)"
proof (cases "length vs = 2048")
  case True
  then have "0 < length vs" by simp
  then have "wl_get (map Some vs) 0 = vs ! 0" by (simp add: wl_get_def)
  moreover have "list_all is_string vs \<Longrightarrow> is_string (vs ! 0)"
    using \<open>0 < length vs\<close> by (simp add: list_all_length)
  ultimately show ?thesis using True
    by (auto simp add: wordlist_ok_def list_ex_iff list_all_iff)
next
  case False
  then show ?thesis by (simp add: wordlist_ok_def)
qed

lemma wl_get_strings:
  assumes "i < length ws"
  shows "wl_get (map (\<lambda>s. Some (JString s)) ws) i = JString (ws ! i)"
  using assms by (simp add: wl_get_def)

lemma strings_ok:
  assumes "length ws = 2048"
  shows "wordlist_ok (map (\<lambda>s. Some (JString s)) ws)"
proof -
  have "0 < length ws" using assms by simp
  then have "is_string (wl_get (map (\<lambda>s. Some (JString s)) ws) 0)"
    by (simp add: wl_get_strings is_string_def)
  then show ?thesis using assms
    by (simp add: wordlist_ok_def list_ex_iff is_string_def)
qed

lemma indexOf_range: "indexOf wl s = -1 \<or> (0 \<le> indexOf wl s \<and> indexOf wl s < int (length wl))"
  by (induction wl) (auto simp add: Let_def)

lemma indexOf_distinct:
  assumes "distinct ws" "i < length ws"
  shows "indexOf (map (\<lambda>s. Some (JString s)) ws) (ws ! i) = int i"
  using assms
proof (induction ws arbitrary: i)
  case Nil
  then show ?case by simp
next
  case (Cons w ws)
  show ?case
  proof (cases i)
    case 0
    then show ?thesis by simp
  next
    case (Suc j)
    then have j: "j < length ws" using Cons.prems by simp
    then have "ws ! j \<noteq> w" using Cons.prems(1) by auto
    then show ?thesis using Suc Cons.IH[OF _ j] Cons.prems(1) by (simp add: Let_def)
  qed
qed

lemma alphabet_encode_ok:
  assumes "list_all (\<lambda>d. d < 2 ^ 11) ds" "length wl = 2048"
  shows "encode (alphabet wl) ds = Inr (map (wl_get wl) ds)"
proof -
  have "list_all (\<lambda>i. (if \<not> isSafeInteger i then Inl WrongInteger
        else if length wl \<le> i then Inl DigitOutsideAlphabet
        else Inr (wl_get wl i)) = Inr (wl_get wl i)) ds"
    using assms by (auto simp add: list_all_iff isSafeInteger_def)
  then show ?thesis by (simp add: alphabet_def map_err_all)
qed

lemma alphabet_decode_strings:
  assumes "distinct ws" "list_all (\<lambda>d. d < length ws) ds"
  shows "decode (alphabet (map (\<lambda>s. Some (JString s)) ws))
           (map (wl_get (map (\<lambda>s. Some (JString s)) ws)) ds) = Inr ds"
proof -
  let ?wl = "map (\<lambda>s. Some (JString s)) ws"
  let ?f = "\<lambda>letter. case letter of
                JString s \<Rightarrow>
                  (let index = indexOf ?wl s
                   in if index = -1 then Inl UnknownLetter else Inr (nat index))
              | _ \<Rightarrow> Inl AlphabetNotString"
  have one: "?f (wl_get ?wl d) = Inr d" if "d < length ws" for d
    using that assms(1) by (simp add: wl_get_strings indexOf_distinct)
  then have "list_all (\<lambda>d. ?f (wl_get ?wl d) = Inr d) ds"
    using assms(2) by (simp add: list_all_iff)
  then have "list_all (\<lambda>v. ?f v = Inr ((\<lambda>v. case v of JString s \<Rightarrow> nat (indexOf ?wl s) | _ \<Rightarrow> 0) v))
      (map (wl_get ?wl) ds)"
    using assms by (auto simp add: list_all_iff wl_get_strings indexOf_distinct)
  then have m: "map_err ?f (map (wl_get ?wl) ds)
      = Inr (map (\<lambda>v. case v of JString s \<Rightarrow> nat (indexOf ?wl s) | _ \<Rightarrow> 0) (map (wl_get ?wl) ds))"
    by (rule map_err_all)
  have "map (\<lambda>v. case v of JString s \<Rightarrow> nat (indexOf ?wl s) | _ \<Rightarrow> 0) (map (wl_get ?wl) ds) = ds"
    using assms by (auto simp add: list_all_iff wl_get_strings indexOf_distinct intro: map_idI)
  then have m': "map_err ?f (map (wl_get ?wl) ds) = Inr ds" using m by simp
  show ?thesis
  proof (cases ds)
    case Nil
    then show ?thesis by (simp add: alphabet_def)
  next
    case (Cons d ds')
    then have "is_string (wl_get ?wl d)" using assms(2) by (simp add: wl_get_strings is_string_def)
    then show ?thesis using m' Cons by (simp add: alphabet_def)
  qed
qed

lemma alphabet_decode_range:
  assumes "decode (alphabet wl) ws = Inr ds"
  shows "list_all (\<lambda>d. d < length wl) ds"
proof (cases ws)
  case Nil
  then show ?thesis using assms by (simp add: alphabet_def)
next
  case (Cons w ws')
  let ?f = "\<lambda>letter. case letter of
                JString s \<Rightarrow>
                  (let index = indexOf wl s
                   in if index = -1 then Inl UnknownLetter else Inr (nat index))
              | _ \<Rightarrow> Inl AlphabetNotString"
  have m: "map_err ?f ws = Inr ds"
    using assms Cons by (auto simp add: alphabet_def split: if_splits)
  have one: "d < length wl" if "?f v = Inr d" for v d
  proof (cases v)
    case (JString s)
    then have "indexOf wl s \<noteq> -1" and d: "d = nat (indexOf wl s)"
      using that by (auto simp add: Let_def split: if_splits)
    then have "0 \<le> indexOf wl s \<and> indexOf wl s < int (length wl)"
      using indexOf_range[of wl s] by blast
    then show ?thesis using d by linarith
  next
    case JUndefined
    then show ?thesis using that by simp
  next
    case (JOther t)
    then show ?thesis using that by simp
  qed
  from map_err_Inr_all[OF m] have l: "length ds = length ws"
    and a: "\<forall>i < length ws. ?f (ws ! i) = Inr (ds ! i)" by blast+
  have "\<forall>i < length ds. ds ! i < length wl" using a l one by auto
  then show ?thesis by (simp add: list_all_length)
qed

lemma encode_indices:
  assumes "distinct ws" "list_all (\<lambda>d. d < length ws) ds"
  shows "map (\<lambda>word. case word of JString s \<Rightarrow> indexOf (map (\<lambda>s. Some (JString s)) ws) s | _ \<Rightarrow> -1)
           (map (wl_get (map (\<lambda>s. Some (JString s)) ws)) ds) = map int ds"
  using assms by (auto simp add: list_all_iff wl_get_strings indexOf_distinct)

lemma coder_decode_err:
  assumes "getCoder X wl = Inr coder" "decode coder ws = Inl e"
  shows "e \<in> codec_errors"
proof -
  have ok: "wordlist_ok wl" using assms(1) getCoder_cases[of wl X] by auto
  from getCoder_ok[OF ok, of X] assms(1) have
    dec: "decode coder = (\<lambda>words. bind_err (decode (alphabet wl) words)
          (\<lambda>digits. bind_err (bind_err (convertRadix2 digits 11 8 True) (\<lambda>r. Inr (map word_of_nat r)))
             (decode (checksum 1 (calcChecksum X)))))"
    by auto
  show ?thesis using assms(2) unfolding dec
    by (auto dest!: bind_err_InlD dest: alphabet_decode_err convertRadix2_err checksum_decode_err)
qed

lemma coder_encode_err:
  assumes "getCoder X wl = Inr coder" "encode coder bs = Inl e"
  shows "e \<in> codec_errors"
proof -
  have ok: "wordlist_ok wl" using assms(1) getCoder_cases[of wl X] by auto
  from getCoder_ok[OF ok, of X] assms(1) have
    enc: "encode coder = (\<lambda>data. bind_err (bind_err (encode (checksum 1 (calcChecksum X)) data)
          (\<lambda>bytes. convertRadix2 (map unat bytes) 8 11 False)) (encode (alphabet wl)))"
    by auto
  show ?thesis using assms(2) unfolding enc checksum_encode_calc bind_err_Inr
    by (auto dest!: bind_err_InlD dest: alphabet_encode_err convertRadix2_err)
qed


subsection \<open>Binary mnemonics\<close>

lemma uint16_pair:
  assumes "d < 65536"
  shows "unat (of_int ((int d mod 65536) mod 256) :: byte)
       + 256 * unat (of_int ((int d mod 65536) div 256) :: byte) = d"
proof -
  have a: "int d mod 65536 = int d" using assms by simp
  have "int d mod 256 = int (d mod 256)" by (simp add: zmod_int)
  then have "(of_int (int d mod 256) :: byte) = word_of_nat (d mod 256)"
    by (simp only: of_int_of_nat_eq)
  then have lo: "unat (of_int (int d mod 256) :: byte) = d mod 256"
    by (simp add: unat_of_nat)
  have "int d div 256 = int (d div 256)" by (simp add: zdiv_int)
  then have "(of_int (int d div 256) :: byte) = word_of_nat (d div 256)"
    by (simp only: of_int_of_nat_eq)
  then have hi: "unat (of_int (int d div 256) :: byte) = d div 256"
    using assms by (simp add: unat_of_nat)
  show ?thesis by (simp only: a lo hi) simp
qed

lemma uint16_elems_bytes:
  assumes "list_all (\<lambda>d. d < 65536) ds"
  shows "uint16_elems (uint16_bytes (map int ds)) = ds"
  using assms
proof (induction ds)
  case Nil
  then show ?case by (simp add: uint16_bytes_def)
next
  case (Cons d ds)
  then have d: "d < 65536" and ih: "uint16_elems (uint16_bytes (map int ds)) = ds" by simp_all
  have "uint16_bytes (map int (d # ds))
      = of_int ((int d mod 65536) mod 256) # of_int ((int d mod 65536) div 256)
          # uint16_bytes (map int ds)"
    by (simp add: uint16_bytes_def)
  then show ?case using uint16_pair[OF d] ih by (simp only: uint16_elems.simps)
qed

lemma length_uint16_bytes: "length (uint16_bytes is) = 2 * length is"
  by (induction "is") (simp_all add: uint16_bytes_def)

lemma uint16_roundtrip:
  assumes "list_all (\<lambda>d. d < 65536) ds"
  shows "uint16_of_buffer (buffer (owning (uint16_bytes (map int ds)))) = Inr ds"
  using uint16_elems_bytes[OF assms]
  by (simp add: uint16_of_buffer_def owning_def length_uint16_bytes)


subsection \<open>String mnemonics\<close>

lemma js_join_split: "js_join sep (js_split sep s) = s"
proof (induction s)
  case Nil
  then show ?case by simp
next
  case (Cons c cs)
  obtain w ws where sp: "js_split sep cs = w # ws" by (cases cs; cases "js_split sep cs") (auto split: if_splits list.splits)
  show ?case
  proof (cases "c = sep")
    case True
    then show ?thesis using Cons.IH sp by simp
  next
    case False
    then show ?thesis using Cons.IH sp by (cases ws) simp_all
  qed
qed

lemma js_split_no_sep: "list_all (\<lambda>w. sep \<notin> set w) (js_split sep s)"
  by (induction s) (auto split: list.splits)

lemma normalize_str_eq:
  "normalize_str X str =
      (if length (js_split 32 (nfkd X str)) \<in> {12, 15, 18, 21, 24}
       then Inr (nfkd X str, js_split 32 (nfkd X str)) else Inl InvalidMnemonic)"
  by (simp add: normalize_str_def Let_def)

lemma mnemonicToEntropy_string:
  "mnemonicToEntropy X (MString str) wordlist =
     bind_err (normalize_str X str) (\<lambda>(norm, words).
     bind_err (getCoder X wordlist) (\<lambda>coder.
     bind_err (decode coder (map JString words)) (\<lambda>entropy.
     bind_err (assertEntropy entropy) (\<lambda>_. Inr entropy))))"
  by (cases "normalize_str X str"; cases "getCoder X wordlist")
     (auto simp add: mnemonicToEntropy_def split: prod.splits)

lemma mnemonicToEntropy_string_ok_err:
  assumes "normalize_str X str = Inr (norm, words)" "mnemonicToEntropy X (MString str) wordlist = Inl e"
  shows "e \<in> {WordlistExpected2048, WordlistNonString, BytesLength} \<union> codec_errors"
proof -
  consider coder where "getCoder X wordlist = Inr coder"
    | "getCoder X wordlist \<in> {Inl WordlistExpected2048, Inl WordlistNonString}"
    using getCoder_cases[of wordlist X] by auto
  then show ?thesis
  proof cases
    case 1
    then show ?thesis using assms
      by (auto simp add: mnemonicToEntropy_string assertEntropy_def
          dest!: bind_err_InlD dest: coder_decode_err split: if_splits)
  next
    case 2
    then show ?thesis using assms by (auto simp add: mnemonicToEntropy_string)
  qed
qed

lemma encodeMnemonic_string:
  "encodeMnemonicForSeedDerivation X (MString str) wordlist =
      (if length (js_split 32 (nfkd X str)) \<in> {12, 15, 18, 21, 24}
       then Inr (utf8 X (nfkd X str)) else Inl InvalidMnemonic)"
  by (simp add: encodeMnemonicForSeedDerivation_def normalize_str_eq)

lemma encodeMnemonic_bytes:
  "encodeMnemonicForSeedDerivation X (MBytes u) wordlist =
      (if even (length (buffer u))
       then Inr (utf8 X (js_join 32 (map (\<lambda>i. join_text (wl_get wordlist i)) (uint16_elems (buffer u)))))
       else Inl Uint16RangeError)"
  by (simp add: encodeMnemonicForSeedDerivation_def uint16_of_buffer_def)


subsection \<open>Which failures are the wordlist's\<close>

lemma assertEntropy_ok: "length e \<in> {16, 20, 24, 28, 32} \<Longrightarrow> assertEntropy e = Inr ()"
  by (simp add: assertEntropy_def)

lemma entropyToMnemonic_wl_err:
  "(entropyToMnemonic X e wl \<in> {Inl WordlistExpected2048, Inl WordlistNonString})
     = (length e \<in> {16, 20, 24, 28, 32} \<and> \<not> wordlist_ok wl)"
proof (cases "length e \<in> {16, 20, 24, 28, 32}")
  case False
  then have "entropyToMnemonic X e wl = Inl BytesLength"
    by (simp add: entropyToMnemonic_def assertEntropy_def)
  then show ?thesis using False by simp
next
  case True
  then have a: "assertEntropy e = Inr ()" by (rule assertEntropy_ok)
  show ?thesis
  proof (cases "wordlist_ok wl")
    case False
    then show ?thesis using True a getCoder_cases[of wl X]
      by (auto simp add: entropyToMnemonic_def)
  next
    case ok: True
    then obtain coder where g: "getCoder X wl = Inr coder" using getCoder_cases[of wl X] by auto
    have "entropyToMnemonic X e wl \<notin> {Inl WordlistExpected2048, Inl WordlistNonString}"
    proof (cases "encode coder e")
      case (Inl err)
      then have "err \<in> codec_errors" using g by (rule coder_encode_err[rotated])
      then show ?thesis using Inl g a wl_err_not_codec[of err]
        by (auto simp add: entropyToMnemonic_def)
    next
      case (Inr words)
      then show ?thesis using g a by (simp add: entropyToMnemonic_def Let_def)
    qed
    then show ?thesis using ok by simp
  qed
qed

lemma mnemonicToEntropy_bytes_wl_err:
  "(mnemonicToEntropy X (MBytes u) wl \<in> {Inl WordlistExpected2048, Inl WordlistNonString})
     = (\<not> wordlist_ok wl)"
proof (cases "wordlist_ok wl")
  case False
  then show ?thesis using getCoder_cases[of wl X]
    by (auto simp add: mnemonicToEntropy_def)
next
  case ok: True
  then obtain coder where g: "getCoder X wl = Inr coder" using getCoder_cases[of wl X] by auto
  have "mnemonicToEntropy X (MBytes u) wl \<noteq> Inl err"
    if "err = WordlistExpected2048 \<or> err = WordlistNonString" for err
  proof
    assume "mnemonicToEntropy X (MBytes u) wl = Inl err"
    then have "err = Uint16RangeError \<or> err = BytesLength \<or> err \<in> codec_errors"
      using g
      by (auto simp add: mnemonicToEntropy_def uint16_of_buffer_def assertEntropy_def
          dest!: bind_err_InlD dest: coder_decode_err split: if_splits)
    then show False using that wl_err_not_codec[of err] by auto
  qed
  then show ?thesis using ok by auto
qed

lemma mnemonicToEntropy_string_wl_err:
  "(mnemonicToEntropy X (MString str) wl \<in> {Inl WordlistExpected2048, Inl WordlistNonString})
     = (length (js_split 32 (nfkd X str)) \<in> {12, 15, 18, 21, 24} \<and> \<not> wordlist_ok wl)"
proof (cases "length (js_split 32 (nfkd X str)) \<in> {12, 15, 18, 21, 24}")
  case False
  then have "mnemonicToEntropy X (MString str) wl = Inl InvalidMnemonic"
    by (simp add: mnemonicToEntropy_string normalize_str_eq)
  then show ?thesis using False by simp
next
  case True
  then have n: "normalize_str X str = Inr (nfkd X str, js_split 32 (nfkd X str))"
    by (simp add: normalize_str_eq)
  show ?thesis
  proof (cases "wordlist_ok wl")
    case False
    then show ?thesis using True n getCoder_cases[of wl X]
      by (auto simp add: mnemonicToEntropy_string)
  next
    case ok: True
    then obtain coder where g: "getCoder X wl = Inr coder" using getCoder_cases[of wl X] by auto
    have "mnemonicToEntropy X (MString str) wl \<noteq> Inl err"
      if "err = WordlistExpected2048 \<or> err = WordlistNonString" for err
    proof
      assume "mnemonicToEntropy X (MString str) wl = Inl err"
      then have "err = BytesLength \<or> err \<in> codec_errors"
        using g n
        by (auto simp add: mnemonicToEntropy_string assertEntropy_def
            dest!: bind_err_InlD dest: coder_decode_err split: if_splits)
      then show False using that wl_err_not_codec[of err] by auto
    qed
    then show ?thesis using ok by auto
  qed
qed


subsection \<open>Flipping a checksum bit\<close>

text \<open>
  With \<open>s\<close> padding bits in the last byte and \<open>cs = 8 - s\<close> checksum bits, the last byte of
  the decoded buffer is the low \<open>cs\<close> bits of the last group, shifted left by \<open>s\<close>, and the
  bytes before it are the bits above them. Flipping one of the low \<open>cs\<close> bits changes the
  last byte and nothing else.
\<close>

lemma shl_div_byte: "s + cs = 8 \<Longrightarrow> ((x::nat) * 2 ^ s) div 2 ^ 8 = x div 2 ^ cs"
proof -
  assume a: "s + cs = 8"
  have "(2::nat) ^ 8 = 2 ^ s * 2 ^ cs" using a by (simp flip: power_add)
  then have "(x * 2 ^ s) div 2 ^ 8 = (2 ^ s * x) div (2 ^ s * 2 ^ cs)" by (simp add: mult.commute)
  also have "\<dots> = x div 2 ^ cs" by (simp add: div_mult2_eq)
  finally show ?thesis .
qed

lemma shl_mod_byte: "s + cs = 8 \<Longrightarrow> ((x::nat) * 2 ^ s) mod 2 ^ 8 = (x mod 2 ^ cs) * 2 ^ s"
proof -
  assume a: "s + cs = 8"
  have "(2::nat) ^ 8 = 2 ^ s * 2 ^ cs" using a by (simp flip: power_add)
  then have "(x * 2 ^ s) mod 2 ^ 8 = (2 ^ s * x) mod (2 ^ s * 2 ^ cs)" by (simp add: mult.commute)
  also have "\<dots> = 2 ^ s * (x mod 2 ^ cs)" by (rule mult_mod_right[symmetric])
  finally show ?thesis by (simp add: mult.commute)
qed

lemma group_div: "cs \<le> 11 \<Longrightarrow> ((a::nat) * 2 ^ 11 + d) div 2 ^ cs = a * 2 ^ (11 - cs) + d div 2 ^ cs"
proof -
  assume a: "cs \<le> 11"
  have "(2::nat) ^ 11 = 2 ^ (11 - cs) * 2 ^ cs" using a by (simp flip: power_add)
  then have "a * 2 ^ 11 + d = d + (a * 2 ^ (11 - cs)) * 2 ^ cs" by (simp add: algebra_simps)
  then show ?thesis by (simp only: div_mult_self3) simp
qed

lemma group_mod: "cs \<le> 11 \<Longrightarrow> ((a::nat) * 2 ^ 11 + d) mod 2 ^ cs = d mod 2 ^ cs"
proof -
  assume a: "cs \<le> 11"
  have e: "(2::nat) ^ 11 = 2 ^ (11 - cs) * 2 ^ cs" using a by (simp flip: power_add)
  have "(a * 2 ^ 11 + d) mod 2 ^ cs = (d + (a * 2 ^ (11 - cs)) * 2 ^ cs) mod 2 ^ cs"
    by (simp only: e) (simp add: algebra_simps)
  also have "\<dots> = d mod 2 ^ cs" by (rule mod_mult_self1)
  finally show ?thesis .
qed

lemma xor_bit_div: "j < cs \<Longrightarrow> ((d::nat) XOR 2 ^ j) div 2 ^ cs = d div 2 ^ cs"
proof -
  assume a: "j < cs"
  have "drop_bit cs (d XOR 2 ^ j) = drop_bit cs d"
    using a by (intro bit_eqI) (auto simp add: bit_drop_bit_eq bit_xor_iff bit_exp_iff)
  then show ?thesis by (simp only: drop_bit_eq_div)
qed

lemma xor_bit_neq: "(d::nat) XOR 2 ^ j \<noteq> d"
proof
  assume "d XOR 2 ^ j = d"
  then have "bit (d XOR 2 ^ j) j = bit d j" by simp
  then show False by (simp add: bit_xor_iff bit_exp_iff)
qed

lemma xor_bit_bound: "(d::nat) < 2 ^ 11 \<Longrightarrow> j < 11 \<Longrightarrow> d XOR 2 ^ j < 2 ^ 11"
proof -
  assume a: "d < 2 ^ 11" "j < 11"
  have "take_bit 11 d = d" using a by (simp add: take_bit_nat_eq_self)
  then have h: "bit d i \<Longrightarrow> i < 11" for i by (metis bit_take_bit_iff)
  have "take_bit 11 (d XOR 2 ^ j) = d XOR 2 ^ j"
    using a(2) h by (intro bit_eqI) (auto simp add: bit_take_bit_iff bit_xor_iff bit_exp_iff)
  then show ?thesis by (metis take_bit_nat_less_exp)
qed

lemma xor_bit_mod: "j < cs \<Longrightarrow> ((d::nat) XOR 2 ^ j) mod 2 ^ cs \<noteq> d mod 2 ^ cs"
proof
  assume a: "j < cs" and b: "(d XOR 2 ^ j) mod 2 ^ cs = d mod 2 ^ cs"
  have "d XOR 2 ^ j = (d XOR 2 ^ j) div 2 ^ cs * 2 ^ cs + (d XOR 2 ^ j) mod 2 ^ cs"
    by (simp only: div_mult_mod_eq)
  also have "\<dots> = d div 2 ^ cs * 2 ^ cs + d mod 2 ^ cs" by (simp only: xor_bit_div[OF a] b)
  also have "\<dots> = d" by (simp only: div_mult_mod_eq)
  finally show False using xor_bit_neq by blast
qed

lemma checksum_region_bits:
  assumes "L \<in> {16, 20, 24, 28, 32::nat}" "8 * (L + 1) = 11 * n + s" "s < 8"
  shows "n div 3 + s = 8 \<and> 0 < n"
proof -
  from assms(1) consider "L = 16" | "L = 20" | "L = 24" | "L = 28" | "L = 32" by auto
  then show ?thesis
  proof cases
    case 1 then have "n = 12 \<and> s = 4" using assms(2,3) by arith
    then show ?thesis by simp
  next
    case 2 then have "n = 15 \<and> s = 3" using assms(2,3) by arith
    then show ?thesis by simp
  next
    case 3 then have "n = 18 \<and> s = 2" using assms(2,3) by arith
    then show ?thesis by simp
  next
    case 4 then have "n = 21 \<and> s = 1" using assms(2,3) by arith
    then show ?thesis by simp
  next
    case 5 then have "n = 24 \<and> s = 0" using assms(2,3) by arith
    then show ?thesis by simp
  qed
qed

lemma checksum_region_size:
  assumes "L \<in> {16, 20, 24, 28, 32::nat}" "8 * (L + 1) = 11 * n + s" "s < 8"
  shows "n div 3 = L div 4 \<and> 11 * n = 8 * L + L div 4"
proof -
  from assms(1) consider "L = 16" | "L = 20" | "L = 24" | "L = 28" | "L = 32" by auto
  then show ?thesis
  proof cases
    case 1 then have "n = 12 \<and> s = 4" using assms(2,3) by arith
    then show ?thesis using 1 by simp
  next
    case 2 then have "n = 15 \<and> s = 3" using assms(2,3) by arith
    then show ?thesis using 2 by simp
  next
    case 3 then have "n = 18 \<and> s = 2" using assms(2,3) by arith
    then show ?thesis using 3 by simp
  next
    case 4 then have "n = 21 \<and> s = 1" using assms(2,3) by arith
    then show ?thesis using 4 by simp
  next
    case 5 then have "n = 24 \<and> s = 0" using assms(2,3) by arith
    then show ?thesis using 5 by simp
  qed
qed

lemma mnemonicToEntropy_packed:
  assumes "wordlist_ok wl"
  shows "mnemonicToEntropy X m wl = bind_err (packed_digits X m wl) (decode_digits X)"
proof -
  from getCoder_ok[OF assms, of X] obtain coder where
    g: "getCoder X wl = Inr coder"
    and dec: "decode coder = (\<lambda>words. bind_err (decode (alphabet wl) words)
          (\<lambda>digits. bind_err (bind_err (convertRadix2 digits 11 8 True) (\<lambda>r. Inr (map word_of_nat r)))
             (decode (checksum 1 (calcChecksum X)))))"
    by blast
  show ?thesis
  proof (cases m)
    case (MString str)
    show ?thesis
    proof (cases "normalize_str X str")
      case (Inl e)
      then show ?thesis
        by (simp add: MString mnemonicToEntropy_def packed_digits_def mnemonic_words_def)
    next
      case (Inr p)
      then show ?thesis
        by (cases p) (simp add: MString mnemonicToEntropy_def packed_digits_def mnemonic_words_def
            decode_digits_def[abs_def] g dec bind_err_assoc)
    qed
  next
    case (MBytes u)
    show ?thesis
    proof (cases "uint16_of_buffer (buffer u)")
      case (Inl e)
      then show ?thesis
        by (simp add: MBytes mnemonicToEntropy_def packed_digits_def mnemonic_words_def g)
    next
      case (Inr idx)
      then show ?thesis
        by (simp add: MBytes mnemonicToEntropy_def packed_digits_def mnemonic_words_def
            decode_digits_def[abs_def] g dec bind_err_assoc)
    qed
  qed
qed

lemma decode_digits_Inr:
  assumes "decode_digits X ds = Inr e"
  shows "length e \<in> {16, 20, 24, 28, 32}
       \<and> (\<exists>bs. convertRadix2 ds 11 8 True = Inr bs \<and> map word_of_nat bs = e @ calcChecksum X e)"
proof -
  obtain bs where c: "convertRadix2 ds 11 8 True = Inr bs"
    using assms by (cases "convertRadix2 ds 11 8 True") (simp_all add: decode_digits_def)
  obtain e' where k: "decode (checksum 1 (calcChecksum X)) (map word_of_nat bs) = Inr e'"
    using assms c
    by (cases "decode (checksum 1 (calcChecksum X)) (map word_of_nat bs)")
       (simp_all add: decode_digits_def)
  have a: "assertEntropy e' = Inr ()" and ee: "e' = e"
    using assms c k by (cases "assertEntropy e'"; simp add: decode_digits_def)+
  have "length e \<in> {16, 20, 24, 28, 32}"
    using a ee by (simp add: assertEntropy_def split: if_splits)
  moreover have "map word_of_nat bs = e @ calcChecksum X e"
    using checksum_decode_Inr[OF k] ee by simp
  ultimately show ?thesis using c by blast
qed

lemma flip_rejected:
  assumes a: "list_all (\<lambda>d. d < 2 ^ 11) ds"
    and v: "decode_digits X ds = Inr e"
    and j: "j < length ds div 3"
  shows "decode_digits X (ds[length ds - 1 := ds ! (length ds - 1) XOR 2 ^ j]) = Inl InvalidChecksum"
proof -
  let ?n = "length ds"
  from decode_digits_Inr[OF v] obtain bs where
    L: "length e \<in> {16, 20, 24, 28, 32}"
    and c: "convertRadix2 ds 11 8 True = Inr bs"
    and B: "map word_of_nat bs = e @ calcChecksum X e"
    by blast
  obtain ck where ck: "calcChecksum X e = [ck]" using calcChecksum_single by blast
  have "\<exists>bs s. convertRadix2 ds 11 8 True = Inr bs \<and> s < 8
           \<and> 8 * length bs = 11 * length ds + s
           \<and> list_all (\<lambda>d. d < 2 ^ 8) bs
           \<and> val 8 bs = val 11 ds * 2 ^ s"
    by (rule convertRadix2_padding[OF _ _ _ a]) simp_all
  then obtain s where s: "s < 8" and lb: "8 * length bs = 11 * ?n + s"
    and ab: "list_all (\<lambda>d. d < 2 ^ 8) bs" and vb: "val 8 bs = val 11 ds * 2 ^ s"
    using c by auto
  have len_bs: "length bs = length e + 1"
    using B ck by (metis length_map length_append_singleton Suc_eq_plus1)
  have "8 * (length e + 1) = 11 * ?n + s" using lb len_bs by simp
  from checksum_region_bits[OF L this s] have cs: "?n div 3 + s = 8" and n0: "0 < ?n" by blast+
  define cs where "cs = ?n div 3"
  have scs: "s + cs = 8" and jcs: "j < cs" and cs11: "cs \<le> 11"
    using cs j by (simp_all add: cs_def)
  define A where "A = butlast ds"
  define d where "d = last ds"
  have ds: "ds = A @ [d]" using n0 by (simp add: A_def d_def)
  have dlt: "d < 2 ^ 11" using a ds by simp
  define d' where "d' = d XOR 2 ^ j"
  define ds' where "ds' = A @ [d']"
  have n1: "length ds - 1 = length A" by (simp add: A_def)
  have dn: "ds ! length A = d" using n0 by (simp add: d_def A_def last_conv_nth)
  have "ds[length A := d'] = (A @ [d])[length A := d']" using ds by simp
  then have up: "ds[length A := d'] = ds'" by (simp add: ds'_def)
  have ds'_eq: "ds[length ds - 1 := ds ! (length ds - 1) XOR 2 ^ j] = ds'"
    using up by (simp only: n1 dn d'_def)
  have "j < 11" using jcs cs11 by simp
  then have d'lt: "d' < 2 ^ 11" unfolding d'_def using dlt by (intro xor_bit_bound)
  have a': "list_all (\<lambda>d. d < 2 ^ 11) ds'"
    using a ds d'lt by (simp add: ds'_def)
  have "\<exists>bs s. convertRadix2 ds' 11 8 True = Inr bs \<and> s < 8
           \<and> 8 * length bs = 11 * length ds' + s
           \<and> list_all (\<lambda>d. d < 2 ^ 8) bs
           \<and> val 8 bs = val 11 ds' * 2 ^ s"
    by (rule convertRadix2_padding[OF _ _ _ a']) simp_all
  then obtain bs' s' where c': "convertRadix2 ds' 11 8 True = Inr bs'"
    and s': "s' < 8" and lb': "8 * length bs' = 11 * length ds' + s'"
    and ab': "list_all (\<lambda>d. d < 2 ^ 8) bs'" and vb': "val 8 bs' = val 11 ds' * 2 ^ s'"
    by blast
  have "length ds' = ?n" by (subst ds) (simp add: ds'_def)
  then have "8 * length bs + s' = 8 * length bs' + s" using lb lb' by simp
  then have "s = s' \<and> length bs = length bs'" using s s' by (rule eight_split)
  then have ss: "s' = s" and ll: "length bs' = length bs" by simp_all
  define P where "P = butlast bs"
  define l where "l = last bs"
  define P' where "P' = butlast bs'"
  define l' where "l' = last bs'"
  have bs: "bs = P @ [l]" using len_bs by (cases bs rule: rev_cases) (simp_all add: P_def l_def)
  have bs': "bs' = P' @ [l']"
    using len_bs ll by (cases bs' rule: rev_cases) (simp_all add: P'_def l'_def)
  have lP: "length P = length P'" using ll by (simp add: P_def P'_def)
  have llt: "l < 2 ^ 8" "l' < 2 ^ 8" and aP: "list_all (\<lambda>d. d < 2 ^ 8) P" "list_all (\<lambda>d. d < 2 ^ 8) P'"
    using ab ab' bs bs' by simp_all
  let ?V = "val 11 A * 2 ^ 11 + d"
  let ?V' = "val 11 A * 2 ^ 11 + d'"
  have e1: "val 8 P * 2 ^ 8 + l = ?V * 2 ^ s"
    using vb by (subst (asm) bs, subst (asm) ds) (simp only: val_snoc)
  have e2: "val 8 P' * 2 ^ 8 + l' = ?V' * 2 ^ s"
    using vb' by (subst (asm) bs') (simp only: val_snoc ds'_def ss)
  have "(val 8 P * 2 ^ 8 + l) div 2 ^ 8 = val 8 P" using llt(1) by simp
  then have "val 8 P = (?V * 2 ^ s) div 2 ^ 8" by (simp only: e1)
  also have "\<dots> = val 11 A * 2 ^ (11 - cs) + d div 2 ^ cs" by (simp only: shl_div_byte[OF scs] group_div[OF cs11])
  finally have vP: "val 8 P = val 11 A * 2 ^ (11 - cs) + d div 2 ^ cs" .
  have "(val 8 P' * 2 ^ 8 + l') div 2 ^ 8 = val 8 P'" using llt(2) by simp
  then have "val 8 P' = (?V' * 2 ^ s) div 2 ^ 8" by (simp only: e2)
  also have "\<dots> = val 11 A * 2 ^ (11 - cs) + d' div 2 ^ cs" by (simp only: shl_div_byte[OF scs] group_div[OF cs11])
  also have "\<dots> = val 11 A * 2 ^ (11 - cs) + d div 2 ^ cs" by (simp only: d'_def xor_bit_div[OF jcs])
  finally have "val 8 P' = val 8 P" using vP by simp
  then have PP: "P' = P" using lP aP by (intro val_inj[where b = 8]) simp_all
  have "(val 8 P * 2 ^ 8 + l) mod 2 ^ 8 = l" using llt(1) by simp
  then have "l = (?V * 2 ^ s) mod 2 ^ 8" by (simp only: e1)
  also have "\<dots> = (d mod 2 ^ cs) * 2 ^ s" by (simp only: shl_mod_byte[OF scs] group_mod[OF cs11])
  finally have l_eq: "l = (d mod 2 ^ cs) * 2 ^ s" .
  have "(val 8 P' * 2 ^ 8 + l') mod 2 ^ 8 = l'" using llt(2) by simp
  then have "l' = (?V' * 2 ^ s) mod 2 ^ 8" by (simp only: e2)
  also have "\<dots> = (d' mod 2 ^ cs) * 2 ^ s" by (simp only: shl_mod_byte[OF scs] group_mod[OF cs11])
  finally have l'_eq: "l' = (d' mod 2 ^ cs) * 2 ^ s" .
  have "d' mod 2 ^ cs \<noteq> d mod 2 ^ cs" unfolding d'_def by (rule xor_bit_mod[OF jcs])
  then have lne: "l' \<noteq> l" by (simp add: l_eq l'_eq)
  have "(word_of_nat l' :: byte) \<noteq> word_of_nat l"
    using lne unat_byte_of_nat[OF llt(1)] unat_byte_of_nat[OF llt(2)] by metis
  moreover have "map word_of_nat P = e" and "(word_of_nat l :: byte) = ck"
    using B by (simp_all add: bs ck)
  ultimately have "decode (checksum 1 (calcChecksum X)) (map word_of_nat bs') = Inl InvalidChecksum"
    using checksum_decode_mismatch[OF ck, of "word_of_nat l'"] by (simp add: bs' PP)
  then show ?thesis by (simp only: ds'_eq decode_digits_def c' bind_err_Inr bind_err_Inl)
qed

lemma packed_digits_range:
  assumes "packed_digits X m wl = Inr ds"
  shows "list_all (\<lambda>d. d < length wl) ds"
proof -
  obtain ws where "decode (alphabet wl) ws = Inr ds"
    using assms by (cases "mnemonic_words X m wl") (simp_all add: packed_digits_def)
  then show ?thesis by (rule alphabet_decode_range)
qed

lemma validate_ok:
  assumes "validateMnemonic X m wl"
  shows "wordlist_ok wl"
proof (rule ccontr)
  assume "\<not> wordlist_ok wl"
  then have "getCoder X wl \<in> {Inl WordlistExpected2048, Inl WordlistNonString}"
    using getCoder_cases[of wl X] by auto
  then have "\<exists>err. mnemonicToEntropy X m wl = Inl err"
    by (cases m; cases "normalize_str X (case m of MString s \<Rightarrow> s | _ \<Rightarrow> [])")
       (auto simp add: mnemonicToEntropy_def split: prod.splits)
  then show False using assms by (auto simp add: validateMnemonic_def)
qed

lemma packed_digits_binary:
  assumes "distinct ws" "list_all (\<lambda>d. d < length ws) ds" "list_all (\<lambda>d. d < 65536) ds"
  shows "packed_digits X (MBytes (owning (uint16_bytes (map int ds)))) (map (\<lambda>s. Some (JString s)) ws)
           = Inr ds"
  by (simp only: packed_digits_def mnemonic_words_def mnemonic.case uint16_roundtrip[OF assms(3)]
      bind_err_Inr alphabet_decode_strings[OF assms(1,2)])

lemma decode_digits_region:
  assumes "list_all (\<lambda>d. d < 2 ^ 11) ds" "decode_digits X ds = Inr e"
  shows "length ds div 3 = length e div 4 \<and> 11 * length ds = 8 * length e + length e div 4"
proof -
  from decode_digits_Inr[OF assms(2)] obtain bs where
    L: "length e \<in> {16, 20, 24, 28, 32}"
    and c: "convertRadix2 ds 11 8 True = Inr bs"
    and B: "map word_of_nat bs = e @ calcChecksum X e"
    by blast
  obtain ck where ck: "calcChecksum X e = [ck]" using calcChecksum_single by blast
  have "\<exists>bs s. convertRadix2 ds 11 8 True = Inr bs \<and> s < 8
           \<and> 8 * length bs = 11 * length ds + s
           \<and> list_all (\<lambda>d. d < 2 ^ 8) bs
           \<and> val 8 bs = val 11 ds * 2 ^ s"
    by (rule convertRadix2_padding[OF _ _ _ assms(1)]) simp_all
  then obtain s where s: "s < 8" and lb: "8 * length bs = 11 * length ds + s"
    using c by auto
  have "length bs = length e + 1"
    using B ck by (metis length_map length_append_singleton Suc_eq_plus1)
  then have "8 * (length e + 1) = 11 * length ds + s" using lb by simp
  from checksum_region_size[OF L this s] show ?thesis .
qed


subsection \<open>Splitting and joining\<close>

lemma js_split_word:
  assumes "sep \<notin> set w"
  shows "js_split sep w = [w]"
  using assms by (induction w) auto

lemma js_split_cons_word:
  assumes "sep \<notin> set w"
  shows "js_split sep (w @ sep # rest) = w # js_split sep rest"
  using assms
proof (induction w)
  case Nil
  then show ?case by simp
next
  case (Cons c w)
  then show ?case by auto
qed

lemma js_split_join:
  assumes "ws \<noteq> []" "\<forall>w\<in>set ws. sep \<notin> set w"
  shows "js_split sep (js_join sep ws) = ws"
  using assms
proof (induction sep ws rule: js_join.induct)
  case (1 sep)
  then show ?case by simp
next
  case (2 sep w)
  then show ?case by (simp add: js_split_word)
next
  case (3 sep w v ws)
  then show ?case by (simp add: js_split_cons_word)
qed


subsection \<open>Words and their indices\<close>

lemma indexOf_mem: "(indexOf wl s = -1) = (Some (JString s) \<notin> set wl)"
proof (induction wl)
  case Nil
  then show ?case by simp
next
  case (Cons x wl)
  have "indexOf wl s = -1 \<or> 0 \<le> indexOf wl s" using indexOf_range[of wl s] by auto
  then show ?case using Cons by (auto simp add: Let_def)
qed

lemma alphabet_decode_words:
  "decode (alphabet wl) (map JString words) =
     (if \<forall>w\<in>set words. Some (JString w) \<in> set wl
      then Inr (map (\<lambda>w. nat (indexOf wl w)) words) else Inl UnknownLetter)"
proof -
  define f where "f = (\<lambda>letter. case letter of
                JString s \<Rightarrow>
                  (let index = indexOf wl s
                   in if index = -1 then Inl UnknownLetter else Inr (nat index))
              | _ \<Rightarrow> Inl AlphabetNotString)"
  have f: "f (JString w) = (if Some (JString w) \<in> set wl then Inr (nat (indexOf wl w))
      else Inl UnknownLetter)" for w
    by (simp add: f_def Let_def indexOf_mem)
  have m: "map_err f (map JString words) =
     (if \<forall>w\<in>set words. Some (JString w) \<in> set wl
      then Inr (map (\<lambda>w. nat (indexOf wl w)) words) else Inl UnknownLetter)"
  proof (induction words)
    case Nil
    then show ?case by simp
  next
    case (Cons w words)
    then show ?case by (auto simp add: f)
  qed
  show ?thesis
  proof (cases words)
    case Nil
    then show ?thesis by (simp add: alphabet_def)
  next
    case (Cons w ws)
    then have "decode (alphabet wl) (map JString words) = map_err f (map JString words)"
      by (simp add: alphabet_def is_string_def f_def)
    then show ?thesis using m by simp
  qed
qed


subsection \<open>Decoding the packed digits\<close>

lemma checksum_decode_cases:
  "decode (checksum 1 (calcChecksum X)) data =
     (if \<exists>e. data = e @ calcChecksum X e then Inr (butlast data) else Inl InvalidChecksum)"
proof (cases "decode (checksum 1 (calcChecksum X)) data")
  case (Inr e)
  then have d: "data = e @ calcChecksum X e" by (rule checksum_decode_Inr)
  obtain c where c: "calcChecksum X e = [c]" using calcChecksum_single by blast
  then have "butlast data = e" using d by simp
  then show ?thesis using Inr d by auto
next
  case (Inl err)
  have e: "err = InvalidChecksum"
    using Inl by (simp add: checksum_def Let_def split: if_splits)
  have "\<not> (\<exists>e. data = e @ calcChecksum X e)"
  proof
    assume "\<exists>e. data = e @ calcChecksum X e"
    then obtain e where "data = e @ calcChecksum X e" by blast
    then have "decode (checksum 1 (calcChecksum X)) data = Inr e"
      using checksum_decode_calc[of X e] by simp
    then show False using Inl by simp
  qed
  then show ?thesis using Inl e by simp
qed

lemma decode_digits_cases:
  assumes "convertRadix2 ds 11 8 True = Inr bs"
  shows "decode_digits X ds =
     (if \<exists>e. map word_of_nat bs = e @ calcChecksum X e
      then (if length (butlast bs) \<in> {16, 20, 24, 28, 32}
            then Inr (butlast (map word_of_nat bs)) else Inl BytesLength)
      else Inl InvalidChecksum)"
proof -
  have d: "decode_digits X ds =
      bind_err (decode (checksum 1 (calcChecksum X)) (map word_of_nat bs))
        (\<lambda>entropy. bind_err (assertEntropy entropy) (\<lambda>_. Inr entropy))"
    by (simp only: decode_digits_def assms bind_err_Inr)
  show ?thesis
  proof (cases "\<exists>e. map word_of_nat bs = e @ calcChecksum X e")
    case True
    then have "decode (checksum 1 (calcChecksum X)) (map word_of_nat bs)
        = Inr (butlast (map word_of_nat bs))"
      by (simp only: checksum_decode_cases if_True)
    then show ?thesis using True by (simp add: d assertEntropy_def)
  next
    case False
    then have "decode (checksum 1 (calcChecksum X)) (map word_of_nat bs) = Inl InvalidChecksum"
      by (simp only: checksum_decode_cases if_False)
    then show ?thesis using False by (simp add: d)
  qed
qed

lemma calcChecksum_cong: "sha256 X = sha256 Y \<Longrightarrow> calcChecksum X = calcChecksum Y"
  by (simp add: calcChecksum_def fun_eq_iff)

lemma decode_digits_cong: "sha256 X = sha256 Y \<Longrightarrow> decode_digits X = decode_digits Y"
  by (simp add: decode_digits_def fun_eq_iff calcChecksum_cong[of X Y])

lemma valid_packed:
  assumes "validateMnemonic X m wl" "packed_digits X m wl = Inr ds"
  shows "wordlist_ok wl \<and> list_all (\<lambda>d. d < 2 ^ 11) ds \<and> length ds \<in> {12, 15, 18, 21, 24}
       \<and> (\<exists>e. mnemonicToEntropy X m wl = Inr e \<and> decode_digits X ds = Inr e)"
proof -
  have ok: "wordlist_ok wl" using assms(1) by (rule validate_ok)
  then have lw: "length wl = 2048" by (simp add: wordlist_ok_def)
  obtain e where e: "mnemonicToEntropy X m wl = Inr e"
    using assms(1) by (cases "mnemonicToEntropy X m wl") (simp_all add: validateMnemonic_def)
  then have d: "decode_digits X ds = Inr e"
    by (simp add: mnemonicToEntropy_packed[OF ok] assms(2))
  have "list_all (\<lambda>d. d < length wl) ds" using assms(2) by (rule packed_digits_range)
  then have a: "list_all (\<lambda>d. d < 2 ^ 11) ds" by (simp add: lw)
  have L: "length e \<in> {16, 20, 24, 28, 32}" using decode_digits_Inr[OF d] by blast
  have r: "11 * length ds = 8 * length e + length e div 4"
    using decode_digits_region[OF a d] by blast
  from L consider "length e = 16" | "length e = 20" | "length e = 24" | "length e = 28"
    | "length e = 32" by auto
  then have "length ds \<in> {12, 15, 18, 21, 24}"
  proof cases
    case 1 then show ?thesis using r by simp
  next
    case 2 then show ?thesis using r by simp
  next
    case 3 then show ?thesis using r by simp
  next
    case 4 then show ?thesis using r by simp
  next
    case 5 then show ?thesis using r by simp
  qed
  then show ?thesis using ok a e d by blast
qed

lemma packed_digits_phrase:
  assumes "distinct ws" "\<forall>w\<in>set ws. 32 \<notin> set w" "list_all (\<lambda>d. d < length ws) ds"
    and "length ds \<in> {12, 15, 18, 21, 24}"
    and "normalizeNFKD X (js_join 32 (map (\<lambda>d. ws ! d) ds)) = js_join 32 (map (\<lambda>d. ws ! d) ds)"
  shows "packed_digits X (MString (js_join 32 (map (\<lambda>d. ws ! d) ds))) (map (\<lambda>s. Some (JString s)) ws)
           = Inr ds"
proof -
  let ?words = "map (\<lambda>d. ws ! d) ds"
  let ?wl = "map (\<lambda>s. Some (JString s)) ws"
  have ne: "?words \<noteq> []" using assms(4) by auto
  have "\<forall>w\<in>set ?words. w \<in> set ws" using assms(3) by (auto simp add: list_all_iff)
  then have ns: "\<forall>w\<in>set ?words. 32 \<notin> set w" using assms(2) by blast
  have sp: "js_split 32 (js_join 32 ?words) = ?words" using ne ns by (rule js_split_join)
  have n: "normalize_str X (js_join 32 ?words) = Inr (js_join 32 ?words, ?words)"
    using assms(4) by (simp add: normalize_str_eq nfkd_def assms(5) sp)
  have w: "map JString ?words = map (wl_get ?wl) ds"
    using assms(3) by (simp add: list_all_iff wl_get_strings)
  show ?thesis
    by (simp only: packed_digits_def mnemonic_words_def mnemonic.case n bind_err_Inr prod.case w
        alphabet_decode_strings[OF assms(1,3)])
qed

lemma flipped_range:
  assumes "list_all (\<lambda>d. d < 2 ^ 11) (ds :: nat list)" "j < length ds div 3"
    and "length ds \<in> {12, 15, 18, 21, 24}"
  shows "list_all (\<lambda>d. d < 2 ^ 11) (ds[length ds - 1 := ds ! (length ds - 1) XOR 2 ^ j])"
proof -
  have j: "j < 11" using assms(2,3) by auto
  have "ds ! (length ds - 1) < 2 ^ 11" using assms(1,3) by (auto simp add: list_all_length)
  then have "ds ! (length ds - 1) XOR 2 ^ j < 2 ^ 11" using j by (rule xor_bit_bound)
  then show ?thesis using assms(1)
    by (auto simp add: list_all_length nth_list_update)
qed


subsection \<open>The seed\<close>

lemma seed_results:
  "mnemonicToSeed X (MString str) wl p =
     (if length (js_split 32 (normalizeNFKD X str)) \<in> {12, 15, 18, 21, 24}
      then Inr (pbkdf2Async X (sha512 X) (utf8 X (normalizeNFKD X str))
                  (utf8 X (normalizeNFKD X (lit ''mnemonic'' @ p))) 2048 64)
      else Inl InvalidMnemonic)"
  "mnemonicToSeedSync X (MString str) wl p =
     (if length (js_split 32 (normalizeNFKD X str)) \<in> {12, 15, 18, 21, 24}
      then Inr (pbkdf2 X (sha512 X) (utf8 X (normalizeNFKD X str))
                  (utf8 X (normalizeNFKD X (lit ''mnemonic'' @ p))) 2048 64)
      else Inl InvalidMnemonic)"
  "mnemonicToSeed X (MBytes u) wl p =
     (if even (length (buffer u))
      then Inr (pbkdf2Async X (sha512 X)
                  (utf8 X (js_join 32 (map (\<lambda>i. join_text (wl_get wl i)) (uint16_elems (buffer u)))))
                  (utf8 X (normalizeNFKD X (lit ''mnemonic'' @ p))) 2048 64)
      else Inl Uint16RangeError)"
  "mnemonicToSeedSync X (MBytes u) wl p =
     (if even (length (buffer u))
      then Inr (pbkdf2 X (sha512 X)
                  (utf8 X (js_join 32 (map (\<lambda>i. join_text (wl_get wl i)) (uint16_elems (buffer u)))))
                  (utf8 X (normalizeNFKD X (lit ''mnemonic'' @ p))) 2048 64)
      else Inl Uint16RangeError)"
  by (simp_all add: mnemonicToSeed_def mnemonicToSeedSync_def encodeMnemonic_string
      encodeMnemonic_bytes salt_def nfkd_def)


subsection \<open>Failures and their causes\<close>

lemma invalid_wordlist_fails:
  assumes "\<not> wordlist_ok wl"
  shows "mnemonicToEntropy X m wl
           \<in> {Inl WordlistExpected2048, Inl WordlistNonString, Inl InvalidMnemonic}"
proof (cases m)
  case (MString str)
  show ?thesis
  proof (cases "length (js_split 32 (nfkd X str)) \<in> {12, 15, 18, 21, 24}")
    case True
    then show ?thesis using assms mnemonicToEntropy_string_wl_err[of X str wl] MString by blast
  next
    case False
    then have "mnemonicToEntropy X (MString str) wl = Inl InvalidMnemonic"
      by (simp add: mnemonicToEntropy_string normalize_str_eq)
    then show ?thesis using MString by simp
  qed
next
  case (MBytes u)
  then show ?thesis using assms mnemonicToEntropy_bytes_wl_err[of X u wl] by blast
qed

lemma word_count_fails:
  assumes "length (js_split 32 (normalizeNFKD X str)) \<notin> {12, 15, 18, 21, 24}"
  shows "mnemonicToEntropy X (MString str) wl = Inl InvalidMnemonic"
  using assms by (simp add: mnemonicToEntropy_string normalize_str_eq nfkd_def)

lemma unknown_word_fails:
  assumes "wordlist_ok wl" "length (js_split 32 (normalizeNFKD X str)) \<in> {12, 15, 18, 21, 24}"
    and "\<exists>w\<in>set (js_split 32 (normalizeNFKD X str)). Some (JString w) \<notin> set wl"
  shows "mnemonicToEntropy X (MString str) wl = Inl UnknownLetter"
proof -
  have "packed_digits X (MString str) wl = Inl UnknownLetter"
    using assms(2,3)
    by (simp add: packed_digits_def mnemonic_words_def normalize_str_eq nfkd_def
        alphabet_decode_words)
  then show ?thesis by (simp add: mnemonicToEntropy_packed[OF assms(1)])
qed

lemma checksum_mismatch_fails:
  assumes "wordlist_ok wl" "packed_digits X m wl = Inr ds" "convertRadix2 ds 11 8 True = Inr bs"
    and "\<forall>e. map word_of_nat bs \<noteq> e @ calcChecksum X e"
  shows "mnemonicToEntropy X m wl = Inl InvalidChecksum"
  using assms(4)
  by (simp add: mnemonicToEntropy_packed[OF assms(1)] assms(2) decode_digits_cases[OF assms(3)])

lemma decoded_length_fails:
  assumes "wordlist_ok wl" "packed_digits X m wl = Inr ds" "convertRadix2 ds 11 8 True = Inr bs"
    and "map word_of_nat bs = e @ calcChecksum X e" "length e \<notin> {16, 20, 24, 28, 32}"
  shows "mnemonicToEntropy X m wl = Inl BytesLength"
proof -
  obtain c where "calcChecksum X e = [c]" using calcChecksum_single by blast
  then have "length bs = length e + 1"
    using assms(4) by (metis length_map length_append_singleton Suc_eq_plus1)
  then have l: "length (butlast bs) = length e" by simp
  have "\<exists>e. map word_of_nat bs = e @ calcChecksum X e" using assms(4) by blast
  then have "decode_digits X ds = Inl BytesLength"
    using assms(5) by (simp only: decode_digits_cases[OF assms(3)] l if_True if_False)
  then show ?thesis by (simp add: mnemonicToEntropy_packed[OF assms(1)] assms(2))
qed

lemma entropyToMnemonic_fails:
  "length e \<notin> {16, 20, 24, 28, 32} \<Longrightarrow> entropyToMnemonic X e wl = Inl BytesLength"
  "\<not> wordlist_ok wl \<Longrightarrow> \<exists>err. entropyToMnemonic X e wl = Inl err"
proof -
  show a: "length e \<notin> {16, 20, 24, 28, 32} \<Longrightarrow> entropyToMnemonic X e wl = Inl BytesLength"
    by (simp add: entropyToMnemonic_def assertEntropy_def)
  show "\<not> wordlist_ok wl \<Longrightarrow> \<exists>err. entropyToMnemonic X e wl = Inl err"
    using a entropyToMnemonic_wl_err[of X e wl]
    by (cases "length e \<in> {16, 20, 24, 28, 32}") auto
qed

lemma generateMnemonic_value:
  assumes "generateMnemonic X randomBytes wl strength = Inr u"
  shows "entropyToMnemonic X (randomBytes (nat (strength div 8))) wl = Inr u"
  using assms by (simp add: generateMnemonic_def assert_number_def split: if_splits)

lemma generateMnemonicQBCK_value:
  assumes "generateMnemonicQBCK X request draw wl strength = Inr u"
  shows "\<exists>e. entropyToMnemonic X e wl = Inr u"
proof -
  have a: "assert_number strength = Inr ()"
    using assms by (cases "assert_number strength") (simp_all add: generateMnemonicQBCK_def)
  have b: "\<not> (strength mod 32 \<noteq> 0 \<or> 256 < strength)"
    using assms a by (auto simp add: generateMnemonicQBCK_def split: if_splits)
  obtain q where q: "getQRNGEntropy request strength = Inr q"
    using assms a b
    by (cases "getQRNGEntropy request strength")
       (auto simp add: generateMnemonicQBCK_def split: if_splits)
  show ?thesis
    using assms a b q
    by (auto simp add: generateMnemonicQBCK_def Let_def split: if_splits)
qed

lemma generators_fail:
  assumes "\<not> wordlist_ok wl"
  shows "\<exists>err. generateMnemonic X randomBytes wl strength = Inl err"
    and "\<exists>err. generateMnemonicQBCK X request draw wl strength = Inl err"
proof -
  have n: "entropyToMnemonic X e wl \<noteq> Inr u" for e u
    using entropyToMnemonic_fails(2)[OF assms, of X e] by auto
  show "\<exists>err. generateMnemonic X randomBytes wl strength = Inl err"
    using generateMnemonic_value[of X randomBytes wl strength] n
    by (cases "generateMnemonic X randomBytes wl strength") auto
  show "\<exists>err. generateMnemonicQBCK X request draw wl strength = Inl err"
    using generateMnemonicQBCK_value[of X request draw wl strength] n
    by (cases "generateMnemonicQBCK X request draw wl strength") auto
qed


subsection \<open>The stand-ins\<close>

lemma demo_words_facts: "length demo_words = 2048" "distinct demo_words"
  by (simp_all add: demo_words_def distinct_map inj_on_def)

lemma demo_ok: "wordlist_ok demo_wordlist"
  unfolding demo_wordlist_def by (rule strings_ok) (rule demo_words_facts)

lemma demo_nfkd: "nfkd demo_externals s = s"
  by (simp add: nfkd_def demo_externals_def)

lemma demo_pbkdf2_length:
  "length (pbkdf2 demo_externals h password s c dkLen) = dkLen"
  "length (pbkdf2Async demo_externals h password s c dkLen) = dkLen"
  "pbkdf2Async demo_externals = pbkdf2 demo_externals"
  by (simp_all add: demo_externals_def)

lemma demo_phrase_split:
  "js_split 32 demo_phrase = [[97], [97], [97], [97], [97], [97], [97], [97], [97], [97], [97], [97]]"
  by (simp add: demo_phrase_def lit_def)

lemma demo_checksum16:
  "calcChecksum demo_externals [0, 0, 0, 0, 0, 0, 0, 0, 0, 0, 0, 0, 0, 0, 0, 0] = [176]"
proof -
  have "replicate 32 (181::byte) = 181 # replicate 31 181" by (simp add: numeral_eq_Suc)
  then show ?thesis by (simp add: calcChecksum_def demo_externals_def bitsLeft_count_def)
qed

lemma demo_decode:
  "mnemonicToEntropy demo_externals
        (MBytes (owning [0, 0, 0, 0, 0, 0, 0, 0, 0, 0, 0, 0, 0, 0, 0, 0, 0, 0, 0, 0, 0, 0, 11, 0]))
        demo_wordlist = Inr [0, 0, 0, 0, 0, 0, 0, 0, 0, 0, 0, 0, 0, 0, 0, 0]"
proof -
  from getCoder_ok[OF demo_ok, of demo_externals] obtain coder where
    g: "getCoder demo_externals demo_wordlist = Inr coder"
    and dec: "decode coder = (\<lambda>words. bind_err (decode (alphabet demo_wordlist) words)
          (\<lambda>digits. bind_err (bind_err (convertRadix2 digits 11 8 True) (\<lambda>r. Inr (map word_of_nat r)))
             (decode (checksum 1 (calcChecksum demo_externals)))))"
    by blast
  have u: "uint16_of_buffer (buffer (owning [0, 0, 0, 0, 0, 0, 0, 0, 0, 0, 0, 0, 0, 0, 0, 0, 0, 0, 0, 0, 0, 0, 11, 0]))
      = Inr [0, 0, 0, 0, 0, 0, 0, 0, 0, 0, 0, 11]"
    by (simp add: uint16_of_buffer_def owning_def)
  have a: "decode (alphabet demo_wordlist) (map (wl_get demo_wordlist) [0, 0, 0, 0, 0, 0, 0, 0, 0, 0, 0, 11])
      = Inr [0, 0, 0, 0, 0, 0, 0, 0, 0, 0, 0, 11]"
    unfolding demo_wordlist_def
    by (rule alphabet_decode_strings) (simp_all add: demo_words_facts)
  have c: "convertRadix2 [0, 0, 0, 0, 0, 0, 0, 0, 0, 0, 0, 11] 11 8 True
      = Inr [0, 0, 0, 0, 0, 0, 0, 0, 0, 0, 0, 0, 0, 0, 0, 0, 176]"
    by (simp add: convertRadix2_guards isSafeInteger_def emit.simps Let_def)
  have k: "decode (checksum 1 (calcChecksum demo_externals))
      [0, 0, 0, 0, 0, 0, 0, 0, 0, 0, 0, 0, 0, 0, 0, 0, 176] = Inr [0, 0, 0, 0, 0, 0, 0, 0, 0, 0, 0, 0, 0, 0, 0, 0]"
    using checksum_decode_calc[of demo_externals "[0, 0, 0, 0, 0, 0, 0, 0, 0, 0, 0, 0, 0, 0, 0, 0]"]
    by (simp add: demo_checksum16)
  have d: "decode coder (map (wl_get demo_wordlist) [0, 0, 0, 0, 0, 0, 0, 0, 0, 0, 0, 11])
      = Inr [0, 0, 0, 0, 0, 0, 0, 0, 0, 0, 0, 0, 0, 0, 0, 0]"
  proof -
    have m: "map word_of_nat [0, 0, 0, 0, 0, 0, 0, 0, 0, 0, 0, 0, 0, 0, 0, 0, 176::nat]
        = ([0, 0, 0, 0, 0, 0, 0, 0, 0, 0, 0, 0, 0, 0, 0, 0, 176] :: byte list)"
      by simp
    show ?thesis by (simp only: dec a bind_err_Inr c m k)
  qed
  show ?thesis
    by (simp only: mnemonicToEntropy_def mnemonic.case g bind_err_Inr u d) (simp add: assertEntropy_def)
qed

lemma demo_flip_digits:
  "packed_digits demo_externals
      (MBytes (owning [0, 0, 0, 0, 0, 0, 0, 0, 0, 0, 0, 0, 0, 0, 0, 0, 0, 0, 0, 0, 0, 0, 11, 0]))
      demo_wordlist = Inr [0, 0, 0, 0, 0, 0, 0, 0, 0, 0, 0, 11]"
  "packed_digits demo_externals
      (MBytes (owning [0, 0, 0, 0, 0, 0, 0, 0, 0, 0, 0, 0, 0, 0, 0, 0, 0, 0, 0, 0, 0, 0, 10, 0]))
      demo_wordlist = Inr [0, 0, 0, 0, 0, 0, 0, 0, 0, 0, 0, 10]"
proof -
  have b: "uint16_bytes [0, 0, 0, 0, 0, 0, 0, 0, 0, 0, 0, 11]
      = [0, 0, 0, 0, 0, 0, 0, 0, 0, 0, 0, 0, 0, 0, 0, 0, 0, 0, 0, 0, 0, 0, 11, 0]"
    "uint16_bytes [0, 0, 0, 0, 0, 0, 0, 0, 0, 0, 0, 10]
      = [0, 0, 0, 0, 0, 0, 0, 0, 0, 0, 0, 0, 0, 0, 0, 0, 0, 0, 0, 0, 0, 0, 10, 0]"
    by (simp_all add: uint16_bytes_def)
  show "packed_digits demo_externals
      (MBytes (owning [0, 0, 0, 0, 0, 0, 0, 0, 0, 0, 0, 0, 0, 0, 0, 0, 0, 0, 0, 0, 0, 0, 11, 0]))
      demo_wordlist = Inr [0, 0, 0, 0, 0, 0, 0, 0, 0, 0, 0, 11]"
    using packed_digits_binary[OF demo_words_facts(2), of "[0, 0, 0, 0, 0, 0, 0, 0, 0, 0, 0, 11]" demo_externals]
    by (simp add: b demo_wordlist_def demo_words_facts)
  show "packed_digits demo_externals
      (MBytes (owning [0, 0, 0, 0, 0, 0, 0, 0, 0, 0, 0, 0, 0, 0, 0, 0, 0, 0, 0, 0, 0, 0, 10, 0]))
      demo_wordlist = Inr [0, 0, 0, 0, 0, 0, 0, 0, 0, 0, 0, 10]"
    using packed_digits_binary[OF demo_words_facts(2), of "[0, 0, 0, 0, 0, 0, 0, 0, 0, 0, 0, 10]" demo_externals]
    by (simp add: b demo_wordlist_def demo_words_facts)
qed

lemma demo_nfkd2:
  "normalizeNFKD demo_externals_nfkd = decompose"
  "utf8 demo_externals_nfkd = utf8 demo_externals"
  "sha256 demo_externals_nfkd = sha256 demo_externals"
  "sha512 demo_externals_nfkd = sha512 demo_externals"
  "pbkdf2 demo_externals_nfkd = pbkdf2 demo_externals"
  "pbkdf2Async demo_externals_nfkd = pbkdf2Async demo_externals"
  by (simp_all add: demo_externals_nfkd_def)

lemma decompose_nbsp:
  "decompose nbsp_phrase = [97, 32, 97, 32, 97, 32, 97, 32, 97, 32, 97, 32, 97, 32, 97, 32, 97, 32,
     97, 32, 97, 32, 101, 769]"
  "decompose nbsp_phrase13 = [97, 32, 97, 32, 97, 32, 97, 32, 97, 32, 97, 32, 97, 32, 97, 32, 97, 32,
     97, 32, 97, 32, 97, 32, 97]"
  by (simp_all add: decompose_def nbsp_phrase_def nbsp_phrase13_def)

lemma demo_decode_digits:
  "decode_digits demo_externals [0, 0, 0, 0, 0, 0, 0, 0, 0, 0, 0, 11]
     = Inr [0, 0, 0, 0, 0, 0, 0, 0, 0, 0, 0, 0, 0, 0, 0, 0]"
proof -
  have c: "convertRadix2 [0, 0, 0, 0, 0, 0, 0, 0, 0, 0, 0, 11] 11 8 True
      = Inr [0, 0, 0, 0, 0, 0, 0, 0, 0, 0, 0, 0, 0, 0, 0, 0, 176]"
    by (simp add: convertRadix2_guards isSafeInteger_def emit.simps Let_def)
  have m: "map word_of_nat [0, 0, 0, 0, 0, 0, 0, 0, 0, 0, 0, 0, 0, 0, 0, 0, 176::nat]
      = [0, 0, 0, 0, 0, 0, 0, 0, 0, 0, 0, 0, 0, 0, 0, 0] @ calcChecksum demo_externals
          [0, 0, 0, 0, 0, 0, 0, 0, 0, 0, 0, 0, 0, 0, 0, 0]"
    by (simp add: demo_checksum16)
  then have "\<exists>e. map word_of_nat [0, 0, 0, 0, 0, 0, 0, 0, 0, 0, 0, 0, 0, 0, 0, 0, 176::nat]
      = e @ calcChecksum demo_externals e"
    by blast
  then show ?thesis by (simp add: decode_digits_cases[OF c])
qed

lemma demo_nfkd_decode_digits:
  "decode_digits demo_externals_nfkd [0, 0, 0, 0, 0, 0, 0, 0, 0, 0, 0, 11]
     = Inr [0, 0, 0, 0, 0, 0, 0, 0, 0, 0, 0, 0, 0, 0, 0, 0]"
  using demo_decode_digits by (simp add: decode_digits_cong[OF demo_nfkd2(3)])

lemma demo_words_nth: "i < 2048 \<Longrightarrow> demo_words ! i = replicate (Suc i) 97"
  by (simp add: demo_words_def)

lemma demo_words_set: "w \<in> set demo_words \<Longrightarrow> w \<noteq> [] \<and> set w = {97}"
  by (auto simp add: demo_words_def)

lemma demo_words_nospace: "\<forall>w\<in>set demo_words. 32 \<notin> set w"
  using demo_words_set by fastforce

lemma accent_words_facts:
  "length accent_words = 2048" "distinct accent_words" "[] \<notin> set accent_words"
  "\<forall>w\<in>set accent_words. 32 \<notin> set w"
  "accent_words ! 0 = [97]" "accent_words ! 11 = [101, 769]" "accent_words ! 15 = [233]"
proof -
  let ?a = "demo_words[11 := [101, 769]]"
  have s1: "set ?a \<subseteq> insert [101, 769] (set demo_words)" by (rule set_update_subset_insert)
  have s2: "set accent_words \<subseteq> insert [233] (set ?a)"
    unfolding accent_words_def by (rule set_update_subset_insert)
  have n1: "[101, 769] \<notin> set demo_words" using demo_words_set[of "[101, 769]"] by auto
  have n2: "[233] \<notin> set demo_words" using demo_words_set[of "[233]"] by auto
  have d1: "distinct ?a" using demo_words_facts(2) n1 by (simp add: distinct_list_update)
  have "[233] \<notin> set ?a" using s1 n2 by auto
  then show "distinct accent_words" using d1 by (simp add: accent_words_def distinct_list_update)
  show "length accent_words = 2048" by (simp add: accent_words_def demo_words_facts)
  have m: "w = [101, 769] \<or> w = [233] \<or> w \<in> set demo_words" if "w \<in> set accent_words" for w
    using that s1 s2 by auto
  show "[] \<notin> set accent_words" using m[of "[]"] demo_words_set[of "[]"] by auto
  show "\<forall>w\<in>set accent_words. 32 \<notin> set w"
  proof
    fix w assume "w \<in> set accent_words"
    then consider "w = [101, 769]" | "w = [233]" | "w \<in> set demo_words" using m by blast
    then show "32 \<notin> set w"
    proof cases
      case 3
      then have "set w = {97}" using demo_words_set by blast
      then show ?thesis by simp
    qed simp_all
  qed
  show "accent_words ! 0 = [97]"
    by (simp add: accent_words_def demo_words_nth)
  show "accent_words ! 11 = [101, 769]"
    by (simp add: accent_words_def demo_words_facts)
  show "accent_words ! 15 = [233]"
    by (simp add: accent_words_def demo_words_facts)
qed

lemma accent_decompose:
  "decompose accent_phrase = accent_phrase" "decompose accent_phrase_flipped = accent_phrase"
  by (simp_all add: decompose_def accent_phrase_def accent_phrase_flipped_def)

lemma accent_packed:
  "packed_digits demo_externals_nfkd (MString accent_phrase) accent_wordlist
     = Inr [0, 0, 0, 0, 0, 0, 0, 0, 0, 0, 0, 11]"
  "packed_digits demo_externals_nfkd (MString accent_phrase_flipped) accent_wordlist
     = Inr [0, 0, 0, 0, 0, 0, 0, 0, 0, 0, 0, 11]"
proof -
  let ?ds = "[0, 0, 0, 0, 0, 0, 0, 0, 0, 0, 0, 11] :: nat list"
  have j: "js_join 32 (map (\<lambda>d. accent_words ! d) ?ds) = accent_phrase"
    by (simp add: accent_words_facts accent_phrase_def)
  have r: "list_all (\<lambda>d. d < length accent_words) ?ds" by (simp add: accent_words_facts)
  have l: "length ?ds \<in> {12, 15, 18, 21, 24}" by simp
  have k: "normalizeNFKD demo_externals_nfkd (js_join 32 (map (\<lambda>d. accent_words ! d) ?ds))
      = js_join 32 (map (\<lambda>d. accent_words ! d) ?ds)"
    by (simp only: j demo_nfkd2 accent_decompose)
  show p: "packed_digits demo_externals_nfkd (MString accent_phrase) accent_wordlist = Inr ?ds"
    using packed_digits_phrase[OF accent_words_facts(2,4) r l k]
    by (simp only: j accent_wordlist_def)
  have "packed_digits demo_externals_nfkd (MString accent_phrase_flipped) accent_wordlist
      = packed_digits demo_externals_nfkd (MString accent_phrase) accent_wordlist"
    by (simp add: packed_digits_def mnemonic_words_def normalize_str_eq nfkd_def demo_nfkd2
        accent_decompose)
  then show "packed_digits demo_externals_nfkd (MString accent_phrase_flipped) accent_wordlist = Inr ?ds"
    using p by simp
qed

lemma accent_ok: "wordlist_ok accent_wordlist"
  unfolding accent_wordlist_def by (rule strings_ok) (rule accent_words_facts)

lemma demo_phrases:
  "js_join 32 (map (\<lambda>d. demo_words ! d) [0, 0, 0, 0, 0, 0, 0, 0, 0, 0, 0, 11]) = demo_valid_phrase"
  "js_join 32 (map (\<lambda>d. demo_words ! d) [0, 0, 0, 0, 0, 0, 0, 0, 0, 0, 0, 10]) = demo_flipped_phrase"
  "decompose demo_valid_phrase = demo_valid_phrase"
  "decompose demo_flipped_phrase = demo_flipped_phrase"
proof -
  have r: "replicate 12 (97::16 word) = [97, 97, 97, 97, 97, 97, 97, 97, 97, 97, 97, 97]"
    "replicate 11 (97::16 word) = [97, 97, 97, 97, 97, 97, 97, 97, 97, 97, 97]"
    by (simp_all add: numeral_eq_Suc)
  have n: "demo_words ! 0 = [97]" "demo_words ! 11 = replicate 12 97" "demo_words ! 10 = replicate 11 97"
    by (simp_all add: demo_words_nth)
  show "js_join 32 (map (\<lambda>d. demo_words ! d) [0, 0, 0, 0, 0, 0, 0, 0, 0, 0, 0, 11]) = demo_valid_phrase"
    by (simp add: n r demo_valid_phrase_def)
  show "js_join 32 (map (\<lambda>d. demo_words ! d) [0, 0, 0, 0, 0, 0, 0, 0, 0, 0, 0, 10]) = demo_flipped_phrase"
    by (simp add: n r demo_flipped_phrase_def)
  show "decompose demo_valid_phrase = demo_valid_phrase"
    by (simp add: decompose_def demo_valid_phrase_def)
  show "decompose demo_flipped_phrase = demo_flipped_phrase"
    by (simp add: decompose_def demo_flipped_phrase_def)
qed

lemma demo_valid_packed:
  "packed_digits demo_externals_nfkd (MString demo_valid_phrase) demo_wordlist
     = Inr [0, 0, 0, 0, 0, 0, 0, 0, 0, 0, 0, 11]"
proof -
  let ?ds = "[0, 0, 0, 0, 0, 0, 0, 0, 0, 0, 0, 11] :: nat list"
  have r: "list_all (\<lambda>d. d < length demo_words) ?ds" by (simp add: demo_words_facts)
  have l: "length ?ds \<in> {12, 15, 18, 21, 24}" by simp
  have k: "normalizeNFKD demo_externals_nfkd (js_join 32 (map (\<lambda>d. demo_words ! d) ?ds))
      = js_join 32 (map (\<lambda>d. demo_words ! d) ?ds)"
    by (simp only: demo_phrases demo_nfkd2)
  show ?thesis
    using packed_digits_phrase[OF demo_words_facts(2) demo_words_nospace r l k]
    by (simp only: demo_phrases demo_wordlist_def)
qed

lemma demo_checksum4: "calcChecksum demo_externals [0, 0, 0, 0] = [128]"
proof -
  have "replicate 32 (169::byte) = 169 # replicate 31 169" by (simp add: numeral_eq_Suc)
  then show ?thesis by (simp add: calcChecksum_def demo_externals_def bitsLeft_count_def)
qed

lemma demo_radix:
  "convertRadix2 [0, 0, 0, 0, 0, 0, 0, 0, 0, 0, 0, 10] 11 8 True
      = Inr [0, 0, 0, 0, 0, 0, 0, 0, 0, 0, 0, 0, 0, 0, 0, 0, 160]"
  "convertRadix2 [0, 0, 1] 11 8 True = Inr [0, 0, 0, 0, 128]"
  by (simp_all add: convertRadix2_guards isSafeInteger_def emit.simps Let_def)

lemma demo_short_packed:
  "packed_digits demo_externals (MBytes (owning [0, 0, 0, 0, 1, 0])) demo_wordlist = Inr [0, 0, 1]"
proof -
  have b: "uint16_bytes [0, 0, 1] = [0, 0, 0, 0, 1, 0]" by (simp add: uint16_bytes_def)
  show ?thesis
    using packed_digits_binary[OF demo_words_facts(2), of "[0, 0, 1]" demo_externals]
    by (simp add: b demo_wordlist_def demo_words_facts)
qed

lemma demo_mismatch:
  "\<forall>e. map word_of_nat [0, 0, 0, 0, 0, 0, 0, 0, 0, 0, 0, 0, 0, 0, 0, 0, 160::nat]
         \<noteq> e @ calcChecksum demo_externals e"
proof (intro allI notI)
  fix e :: "byte list"
  assume h: "map word_of_nat [0, 0, 0, 0, 0, 0, 0, 0, 0, 0, 0, 0, 0, 0, 0, 0, 160::nat]
      = e @ calcChecksum demo_externals e"
  obtain c where c: "calcChecksum demo_externals e = [c]" using calcChecksum_single by blast
  have "e @ [c] = [0, 0, 0, 0, 0, 0, 0, 0, 0, 0, 0, 0, 0, 0, 0, 0, 160::byte]"
    using h c by simp
  then have "e = [0, 0, 0, 0, 0, 0, 0, 0, 0, 0, 0, 0, 0, 0, 0, 0] \<and> c = 160"
    by (simp add: snoc_eq_iff_butlast)
  then show False using c demo_checksum16 by simp
qed

lemma demo_unknown:
  "js_split 32 (lit ''b a a a a a a a a a a a'')
     = [[98], [97], [97], [97], [97], [97], [97], [97], [97], [97], [97], [97]]"
  "Some (JString [98]) \<notin> set demo_wordlist"
proof -
  show "js_split 32 (lit ''b a a a a a a a a a a a'')
     = [[98], [97], [97], [97], [97], [97], [97], [97], [97], [97], [97], [97]]"
    by (simp add: lit_def)
  have "[98] \<notin> set demo_words" using demo_words_set[of "[98]"] by auto
  then show "Some (JString [98]) \<notin> set demo_wordlist"
    by (auto simp add: demo_wordlist_def)
qed

lemma demo_short_list: "\<not> wordlist_ok (take 2047 demo_wordlist)"
  by (simp add: wordlist_ok_def demo_wordlist_def demo_words_facts)

section \<open>The properties\<close>

text \<open>
  Claim C1. For every entropy of 16, 20, 24, 28 or 32 bytes and every wordlist of 2048
  distinct strings, \<^verbatim>\<open>entropyToMnemonic\<close> succeeds and \<^verbatim>\<open>mnemonicToEntropy\<close> of the
  mnemonic it returns (the byte image of the word indices), over the same wordlist, returns
  the entropy. That the strings are non-empty is not needed.
\<close>

theorem roundtrip:
  assumes "length e \<in> {16, 20, 24, 28, 32}" and "length ws = 2048" and "distinct ws"
  shows "\<exists>u. entropyToMnemonic X e (map (\<lambda>s. Some (JString s)) ws) = Inr u
             \<and> mnemonicToEntropy X (MBytes u) (map (\<lambda>s. Some (JString s)) ws) = Inr e"
proof -
  let ?wl = "map (\<lambda>s. Some (JString s)) ws"
  from getCoder_ok[OF strings_ok[OF assms(2)], of X] obtain coder where
    g: "getCoder X ?wl = Inr coder"
    and enc: "encode coder = (\<lambda>data. bind_err (bind_err (encode (checksum 1 (calcChecksum X)) data)
          (\<lambda>bytes. convertRadix2 (map unat bytes) 8 11 False)) (encode (alphabet ?wl)))"
    and dec: "decode coder = (\<lambda>words. bind_err (decode (alphabet ?wl) words)
          (\<lambda>digits. bind_err (bind_err (convertRadix2 digits 11 8 True) (\<lambda>r. Inr (map word_of_nat r)))
             (decode (checksum 1 (calcChecksum X)))))"
    by blast
  from encode_digits[OF assms(1), of X] obtain ds where
    c1: "convertRadix2 (map unat (e @ calcChecksum X e)) 8 11 False = Inr ds"
    and a: "list_all (\<lambda>d. d < 2 ^ 11) ds"
    and c2: "convertRadix2 ds 11 8 True = Inr (map unat (e @ calcChecksum X e))"
    by blast
  have lw: "length ?wl = 2048" using assms(2) by simp
  have a_ws: "list_all (\<lambda>d. d < length ws) ds"
    using a assms(2) by (simp add: list_all_iff)
  have a16: "list_all (\<lambda>d. d < 65536) ds"
    using a by (rule list_all_weaken) simp
  have words: "encode coder e = Inr (map (wl_get ?wl) ds)"
    by (simp only: enc checksum_encode_calc bind_err_Inr c1 alphabet_encode_ok[OF a lw])
  let ?u = "owning (uint16_bytes (map int ds))"
  have E: "entropyToMnemonic X e ?wl = Inr ?u"
    by (simp only: entropyToMnemonic_def assertEntropy_ok[OF assms(1)] bind_err_Inr g words
        Let_def encode_indices[OF assms(3) a_ws])
  have D: "decode coder (map (wl_get ?wl) ds) = Inr e"
    by (simp only: dec alphabet_decode_strings[OF assms(3) a_ws] bind_err_Inr c2
        word_of_unat_bytes checksum_decode_calc)
  have "mnemonicToEntropy X (MBytes ?u) ?wl = Inr e"
    by (simp only: mnemonicToEntropy_def mnemonic.case g bind_err_Inr uint16_roundtrip[OF a16] D
        assertEntropy_ok[OF assms(1)])
  then show ?thesis using E by blast
qed

theorem roundtrip_witness:
  "length (replicate 16 (127::byte)) \<in> {16, 20, 24, 28, 32} \<and> length demo_words = 2048
   \<and> distinct demo_words
   \<and> (\<exists>u. entropyToMnemonic demo_externals (replicate 16 127) demo_wordlist = Inr u
          \<and> mnemonicToEntropy demo_externals (MBytes u) demo_wordlist = Inr (replicate 16 127))"
proof -
  have l: "length (replicate 16 (127::byte)) \<in> {16, 20, 24, 28, 32}" by simp
  show ?thesis
    using l demo_words_facts roundtrip[OF l demo_words_facts, of demo_externals]
    by (simp only: demo_wordlist_def)
qed

text \<open>
  Claim C2. Take a string mnemonic whose NFKD form, as the host's
  \<^verbatim>\<open>String.prototype.normalize('NFKD')\<close> gives it, is 12, 15, 18, 21 or 24 words, none of
  which holds a space, joined by single spaces. For every passphrase \<^verbatim>\<open>mnemonicToSeedSync\<close>
  returns \<^verbatim>\<open>pbkdf2\<close> of \<^verbatim>\<open>sha512\<close>, that is PBKDF2 with HMAC-SHA512, with 2048
  iterations and a length of 64 bytes, for the password UTF-8(NFKD(mnemonic)) and the salt
  UTF-8(NFKD(\<open>mnemonic\<close> followed by the passphrase)), which the source normalises as a
  whole. It has 64 bytes by the contract of PBKDF2, an output of \<open>dkLen\<close> bytes, which is
  the last hypothesis. The salt is UTF-8(\<open>mnemonic\<close> followed by NFKD(passphrase)) for every
  passphrase with which NFKD leaves the ASCII prefix alone, as it does by its definition.
  In the instance the mnemonic holds a no-break space and a composed letter, and both are
  normalised before the password is taken.
\<close>

theorem mnemonicToSeedSync_pbkdf2:
  assumes "normalizeNFKD X str = js_join 32 ws" and "\<forall>w\<in>set ws. 32 \<notin> set w"
    and "length ws \<in> {12, 15, 18, 21, 24}"
    and "\<And>password s c dkLen. length (pbkdf2 X (sha512 X) password s c dkLen) = dkLen"
  shows "mnemonicToSeedSync X (MString str) wordlist passphrase
           = Inr (pbkdf2 X (sha512 X) (utf8 X (normalizeNFKD X str))
                   (utf8 X (normalizeNFKD X (lit ''mnemonic'' @ passphrase))) 2048 64)
       \<and> length (pbkdf2 X (sha512 X) (utf8 X (normalizeNFKD X str))
                   (utf8 X (normalizeNFKD X (lit ''mnemonic'' @ passphrase))) 2048 64) = 64
       \<and> (normalizeNFKD X (lit ''mnemonic'' @ passphrase)
              = lit ''mnemonic'' @ normalizeNFKD X passphrase
            \<longrightarrow> mnemonicToSeedSync X (MString str) wordlist passphrase
                  = Inr (pbkdf2 X (sha512 X) (utf8 X (normalizeNFKD X str))
                          (utf8 X (lit ''mnemonic'' @ normalizeNFKD X passphrase)) 2048 64))"
proof -
  have "ws \<noteq> []" using assms(3) by auto
  then have "js_split 32 (normalizeNFKD X str) = ws"
    using assms(1,2) by (simp add: js_split_join)
  then have "length (js_split 32 (normalizeNFKD X str)) \<in> {12, 15, 18, 21, 24}"
    using assms(3) by simp
  then show ?thesis
    using assms(4) by (simp add: seed_results)
qed

theorem mnemonicToSeedSync_pbkdf2_witness:
  "normalizeNFKD demo_externals_nfkd nbsp_phrase
     = js_join 32 [[97], [97], [97], [97], [97], [97], [97], [97], [97], [97], [97], [101, 769]]
   \<and> normalizeNFKD demo_externals_nfkd (lit ''mnemonic'' @ [233])
        = lit ''mnemonic'' @ normalizeNFKD demo_externals_nfkd [233]
   \<and> mnemonicToSeedSync demo_externals_nfkd (MString nbsp_phrase) demo_wordlist [233]
        = Inr (pbkdf2 demo_externals_nfkd (sha512 demo_externals_nfkd)
                (utf8 demo_externals_nfkd
                   [97, 32, 97, 32, 97, 32, 97, 32, 97, 32, 97, 32, 97, 32, 97, 32, 97, 32,
                    97, 32, 97, 32, 101, 769])
                (utf8 demo_externals_nfkd (lit ''mnemonic'' @ [101, 769])) 2048 64)"
proof -
  let ?ws = "[[97], [97], [97], [97], [97], [97], [97], [97], [97], [97], [97], [101, 769]]
    :: jsstring list"
  have a: "normalizeNFKD demo_externals_nfkd nbsp_phrase = js_join 32 ?ws"
    by (simp add: demo_nfkd2 decompose_nbsp)
  have b: "\<forall>w\<in>set ?ws. 32 \<notin> set w" by simp
  have c: "length ?ws \<in> {12, 15, 18, 21, 24}" by simp
  have d: "normalizeNFKD demo_externals_nfkd (lit ''mnemonic'' @ [233])
        = lit ''mnemonic'' @ normalizeNFKD demo_externals_nfkd [233]"
    by (simp add: demo_nfkd2 decompose_def lit_def)
  have e: "length (pbkdf2 demo_externals_nfkd (sha512 demo_externals_nfkd) password s c dkLen) = dkLen"
    for password s c dkLen
    by (simp add: demo_nfkd2 demo_pbkdf2_length)
  have f: "decompose [233] = [101, 769]" by (simp add: decompose_def)
  have "mnemonicToSeedSync demo_externals_nfkd (MString nbsp_phrase) demo_wordlist [233]
      = Inr (pbkdf2 demo_externals_nfkd (sha512 demo_externals_nfkd)
              (utf8 demo_externals_nfkd (normalizeNFKD demo_externals_nfkd nbsp_phrase))
              (utf8 demo_externals_nfkd (lit ''mnemonic'' @ normalizeNFKD demo_externals_nfkd [233]))
              2048 64)"
    using mnemonicToSeedSync_pbkdf2[OF a b c e, of demo_wordlist "[233]"] d by blast
  then show ?thesis
    using a d by (simp add: f decompose_nbsp demo_nfkd2(1))
qed

text \<open>
  Claim C3. For an entropy of \<open>L\<close> = 16, 20, 24, 28 or 32 bytes the checksum is the single
  byte \<open>(sha256(entropy)[0] >> (8 - L/4)) << (8 - L/4)\<close>: the top \<open>L/4\<close> bits of the first
  byte of the digest, the low \<open>8 - L/4\<close> bits zero.
\<close>

theorem calcChecksum_top_bits:
  assumes "length entropy \<in> {16, 20, 24, 28, 32}" and "sha256 X entropy = h # hs"
  shows "calcChecksum X entropy
           = [push_bit (8 - length entropy div 4) (drop_bit (8 - length entropy div 4) h)]
       \<and> push_bit (8 - length entropy div 4) (drop_bit (8 - length entropy div 4) h)
           = h AND NOT (mask (8 - length entropy div 4))"
proof -
  have le: "length entropy \<le> 32" using assms(1) by auto
  have h: "hash0 X entropy = h" using assms(2) by (simp add: hash0_def)
  have "push_bit k (drop_bit k h) = h AND NOT (mask k)" for k
    by (rule bit_word_eqI) (auto simp add: bit_push_bit_iff bit_drop_bit_eq bit_and_iff bit_not_iff bit_mask_iff)
  then show ?thesis
    using calcChecksum_byte[OF le, of X] valid_len_cases(1)[OF assms(1)] h by simp
qed

theorem calcChecksum_top_bits_witness:
  "length (replicate 16 (127::byte)) \<in> {16, 20, 24, 28, 32}
   \<and> sha256 demo_externals (replicate 16 127) = 181 # replicate 31 181
   \<and> calcChecksum demo_externals (replicate 16 127) = [176]"
proof -
  have l: "length (replicate 16 (127::byte)) \<in> {16, 20, 24, 28, 32}" by simp
  have "replicate 32 (181::byte) = 181 # replicate 31 181" by (simp add: numeral_eq_Suc)
  then have s: "sha256 demo_externals (replicate 16 127) = 181 # replicate 31 181"
    by (simp add: demo_externals_def)
  show ?thesis using l s calcChecksum_top_bits[OF l s] by simp
qed

text \<open>
  Claim C4, as stated, fails: \<^verbatim>\<open>getCoder\<close> accepts a table with empty strings, and the
  operations check the entropy length and the word count of a string before the wordlist,
  so that with an invalid wordlist they can fail with another error.
\<close>

theorem invalid_wordlist_counterexample:
  "entropyToMnemonic demo_externals (replicate 16 0) (replicate 2048 (Some (JString [])))
      \<notin> {Inl WordlistExpected2048, Inl WordlistNonString}
   \<and> entropyToMnemonic demo_externals (replicate 15 0) (take 2047 demo_wordlist) = Inl BytesLength
   \<and> mnemonicToEntropy demo_externals (MString (lit ''abc'')) (take 2047 demo_wordlist)
      = Inl InvalidMnemonic"
proof -
  have 1: "wordlist_ok (replicate 2048 (Some (JString [])))"
    by (simp add: wordlist_ok_iff wl_get_def list_all_iff)
  have 3: "entropyToMnemonic demo_externals (replicate 15 0) (take 2047 demo_wordlist) = Inl BytesLength"
    by (simp add: entropyToMnemonic_def assertEntropy_def)
  have 4: "mnemonicToEntropy demo_externals (MString (lit ''abc'')) (take 2047 demo_wordlist)
      = Inl InvalidMnemonic"
    by (simp add: mnemonicToEntropy_string normalize_str_eq demo_nfkd lit_def)
  have 5: "entropyToMnemonic demo_externals (replicate 16 0) (replicate 2048 (Some (JString [])))
      \<notin> {Inl WordlistExpected2048, Inl WordlistNonString}"
    using 1 by (simp only: entropyToMnemonic_wl_err) simp
  show ?thesis
    using 3 4 5 by blast
qed

text \<open>
  Claim C4, amended. For a wordlist without gaps, \<open>map Some vs\<close>: \<^verbatim>\<open>getCoder\<close> fails,
  with one of its two invalid-wordlist errors, if and only if the table has not exactly
  2048 entries or one of them is not a string; the empty string is a string.
  \<^verbatim>\<open>entropyToMnemonic\<close> on an entropy of valid length, \<^verbatim>\<open>mnemonicToEntropy\<close> on a binary
  mnemonic, and \<^verbatim>\<open>mnemonicToEntropy\<close> on a string of valid word count fail with an
  invalid-wordlist error exactly then: the error is \<^verbatim>\<open>getCoder\<close>'s, raised before any
  encoding or decoding. In particular a table of 2047 or 2049 entries, or one holding a
  value that is not a string, always fails there.
\<close>

theorem invalid_wordlist_failure:
  "(getCoder X (map Some vs) \<in> {Inl WordlistExpected2048, Inl WordlistNonString})
       = (\<not> (length vs = 2048 \<and> list_all is_string vs))
   \<and> (entropyToMnemonic X e (map Some vs) \<in> {Inl WordlistExpected2048, Inl WordlistNonString})
       = (length e \<in> {16, 20, 24, 28, 32} \<and> \<not> (length vs = 2048 \<and> list_all is_string vs))
   \<and> (mnemonicToEntropy X (MBytes u) (map Some vs) \<in> {Inl WordlistExpected2048, Inl WordlistNonString})
       = (\<not> (length vs = 2048 \<and> list_all is_string vs))
   \<and> (mnemonicToEntropy X (MString str) (map Some vs)
          \<in> {Inl WordlistExpected2048, Inl WordlistNonString})
       = (length (js_split 32 (nfkd X str)) \<in> {12, 15, 18, 21, 24}
          \<and> \<not> (length vs = 2048 \<and> list_all is_string vs))"
  using getCoder_err_iff[of X "map Some vs"] entropyToMnemonic_wl_err[of X e "map Some vs"]
    mnemonicToEntropy_bytes_wl_err[of X u "map Some vs"]
    mnemonicToEntropy_string_wl_err[of X str "map Some vs"]
    wordlist_ok_dense[of vs]
  by blast

theorem invalid_wordlist_failure_witness:
  "getCoder demo_externals (map Some (replicate 2047 (JString [97])))
       \<in> {Inl WordlistExpected2048, Inl WordlistNonString}
   \<and> getCoder demo_externals (map Some (replicate 2049 (JString [97])))
       \<in> {Inl WordlistExpected2048, Inl WordlistNonString}
   \<and> getCoder demo_externals (map Some (replicate 2047 (JString [97]) @ [JOther []]))
       \<in> {Inl WordlistExpected2048, Inl WordlistNonString}
   \<and> getCoder demo_externals (map Some (replicate 2048 (JString [])))
       \<notin> {Inl WordlistExpected2048, Inl WordlistNonString}
   \<and> entropyToMnemonic demo_externals (replicate 16 0) (map Some (replicate 2047 (JString [97])))
       \<in> {Inl WordlistExpected2048, Inl WordlistNonString}
   \<and> mnemonicToEntropy demo_externals (MBytes (owning [])) (map Some (replicate 2047 (JString [97])))
       \<in> {Inl WordlistExpected2048, Inl WordlistNonString}
   \<and> mnemonicToEntropy demo_externals (MString demo_phrase) (map Some (replicate 2047 (JString [97])))
       \<in> {Inl WordlistExpected2048, Inl WordlistNonString}"
proof -
  have c: "length (js_split 32 (nfkd demo_externals demo_phrase)) \<in> {12, 15, 18, 21, 24}"
    by (simp add: demo_nfkd demo_phrase_split)
  have l: "length (replicate 16 (0::byte)) \<in> {16, 20, 24, 28, 32}" by simp
  have n1: "\<not> (length (replicate 2047 (JString [97])) = 2048
      \<and> list_all is_string (replicate 2047 (JString [97])))"
    by simp
  have n2: "\<not> (length (replicate 2049 (JString [97])) = 2048
      \<and> list_all is_string (replicate 2049 (JString [97])))"
    by simp
  have n3: "\<not> (length (replicate 2047 (JString [97]) @ [JOther []]) = 2048
      \<and> list_all is_string (replicate 2047 (JString [97]) @ [JOther []]))"
    by (simp add: is_string_def)
  have p4: "length (replicate 2048 (JString [])) = 2048
      \<and> list_all is_string (replicate 2048 (JString []))"
    by (simp add: is_string_def list_all_iff)
  note t1 = invalid_wordlist_failure[of demo_externals "replicate 2047 (JString [97])"
      "replicate 16 0" "owning []" demo_phrase]
  note t2 = invalid_wordlist_failure[of demo_externals "replicate 2049 (JString [97])"
      "replicate 16 0" "owning []" demo_phrase]
  note t3 = invalid_wordlist_failure[of demo_externals "replicate 2047 (JString [97]) @ [JOther []]"
      "replicate 16 0" "owning []" demo_phrase]
  note t4 = invalid_wordlist_failure[of demo_externals "replicate 2048 (JString [])"
      "replicate 16 0" "owning []" demo_phrase]
  have 1: "getCoder demo_externals (map Some (replicate 2047 (JString [97])))
       \<in> {Inl WordlistExpected2048, Inl WordlistNonString}"
    using t1 n1 by blast
  have 2: "getCoder demo_externals (map Some (replicate 2049 (JString [97])))
       \<in> {Inl WordlistExpected2048, Inl WordlistNonString}"
    using t2 n2 by blast
  have 3: "getCoder demo_externals (map Some (replicate 2047 (JString [97]) @ [JOther []]))
       \<in> {Inl WordlistExpected2048, Inl WordlistNonString}"
    using t3 n3 by blast
  have 4: "getCoder demo_externals (map Some (replicate 2048 (JString [])))
       \<notin> {Inl WordlistExpected2048, Inl WordlistNonString}"
    using t4 p4 by blast
  have 5: "entropyToMnemonic demo_externals (replicate 16 0) (map Some (replicate 2047 (JString [97])))
       \<in> {Inl WordlistExpected2048, Inl WordlistNonString}"
    using t1 n1 l by blast
  have 6: "mnemonicToEntropy demo_externals (MBytes (owning [])) (map Some (replicate 2047 (JString [97])))
       \<in> {Inl WordlistExpected2048, Inl WordlistNonString}"
    using t1 n1 by blast
  have 7: "mnemonicToEntropy demo_externals (MString demo_phrase) (map Some (replicate 2047 (JString [97])))
       \<in> {Inl WordlistExpected2048, Inl WordlistNonString}"
    using t1 n1 c by blast
  show ?thesis using 1 2 3 4 5 6 7 by blast
qed

text \<open>
  Claim C5. \<^verbatim>\<open>validateMnemonic\<close> returns true exactly when \<^verbatim>\<open>mnemonicToEntropy\<close> returns
  an entropy and false exactly when it fails; its result is a boolean, so it propagates no
  failure. The failures, each by its cause, and false in each case: a wordlist that
  \<^verbatim>\<open>getCoder\<close> rejects; a string whose NFKD form has not 12, 15, 18, 21 or 24 words; a
  word that the wordlist does not hold (\<^verbatim>\<open>Unknown letter\<close>); packed digits whose last
  byte is not the checksum of the bytes before it (\<^verbatim>\<open>Invalid checksum\<close>); and packed
  digits with the right checksum over an entropy of another length than 16, 20, 24, 28 or
  32 bytes. No other operation turns these failures into a value: with an entropy of
  another length \<^verbatim>\<open>entropyToMnemonic\<close> fails; with a rejected wordlist
  \<^verbatim>\<open>entropyToMnemonic\<close>, \<^verbatim>\<open>generateMnemonic\<close> and \<^verbatim>\<open>generateMnemonicQBCK\<close> fail; with
  a string of another word count \<^verbatim>\<open>mnemonicToSeed\<close> and \<^verbatim>\<open>mnemonicToSeedSync\<close> fail;
  and a generator returns a value only if \<^verbatim>\<open>entropyToMnemonic\<close> returned it. The results
  of all of them are byte arrays or failures, never booleans.
\<close>

theorem validateMnemonic_catches_all:
  "validateMnemonic X m wl = (\<exists>entropy. mnemonicToEntropy X m wl = Inr entropy)
   \<and> (\<not> validateMnemonic X m wl) = (\<exists>err. mnemonicToEntropy X m wl = Inl err)
   \<and> (\<not> wordlist_ok wl
        \<longrightarrow> mnemonicToEntropy X m wl
              \<in> {Inl WordlistExpected2048, Inl WordlistNonString, Inl InvalidMnemonic}
          \<and> \<not> validateMnemonic X m wl)
   \<and> (\<forall>str. m = MString str
          \<and> length (js_split 32 (normalizeNFKD X str)) \<notin> {12, 15, 18, 21, 24}
        \<longrightarrow> mnemonicToEntropy X m wl = Inl InvalidMnemonic \<and> \<not> validateMnemonic X m wl)
   \<and> (\<forall>str. m = MString str \<and> wordlist_ok wl
          \<and> length (js_split 32 (normalizeNFKD X str)) \<in> {12, 15, 18, 21, 24}
          \<and> (\<exists>w\<in>set (js_split 32 (normalizeNFKD X str)). Some (JString w) \<notin> set wl)
        \<longrightarrow> mnemonicToEntropy X m wl = Inl UnknownLetter \<and> \<not> validateMnemonic X m wl)
   \<and> (\<forall>ds bs. wordlist_ok wl \<and> packed_digits X m wl = Inr ds
          \<and> convertRadix2 ds 11 8 True = Inr bs
          \<and> (\<forall>e. map word_of_nat bs \<noteq> e @ calcChecksum X e)
        \<longrightarrow> mnemonicToEntropy X m wl = Inl InvalidChecksum \<and> \<not> validateMnemonic X m wl)
   \<and> (\<forall>ds bs e. wordlist_ok wl \<and> packed_digits X m wl = Inr ds
          \<and> convertRadix2 ds 11 8 True = Inr bs
          \<and> map word_of_nat bs = e @ calcChecksum X e \<and> length e \<notin> {16, 20, 24, 28, 32}
        \<longrightarrow> mnemonicToEntropy X m wl = Inl BytesLength \<and> \<not> validateMnemonic X m wl)
   \<and> (length bytes \<notin> {16, 20, 24, 28, 32}
        \<longrightarrow> entropyToMnemonic X bytes wl = Inl BytesLength)
   \<and> (\<not> wordlist_ok wl
        \<longrightarrow> (\<exists>err. entropyToMnemonic X bytes wl = Inl err)
          \<and> (\<exists>err. generateMnemonic X randomBytes wl strength = Inl err)
          \<and> (\<exists>err. generateMnemonicQBCK X request draw wl strength = Inl err))
   \<and> (\<forall>str. m = MString str
          \<and> length (js_split 32 (normalizeNFKD X str)) \<notin> {12, 15, 18, 21, 24}
        \<longrightarrow> mnemonicToSeed X m wl passphrase = Inl InvalidMnemonic
          \<and> mnemonicToSeedSync X m wl passphrase = Inl InvalidMnemonic)
   \<and> (\<forall>u. generateMnemonic X randomBytes wl strength = Inr u
        \<longrightarrow> entropyToMnemonic X (randomBytes (nat (strength div 8))) wl = Inr u)
   \<and> (\<forall>u. generateMnemonicQBCK X request draw wl strength = Inr u
        \<longrightarrow> (\<exists>e. entropyToMnemonic X e wl = Inr u))"
proof -
  have v: "validateMnemonic X m wl = (\<exists>entropy. mnemonicToEntropy X m wl = Inr entropy)"
    "(\<not> validateMnemonic X m wl) = (\<exists>err. mnemonicToEntropy X m wl = Inl err)"
    by (cases "mnemonicToEntropy X m wl"; simp add: validateMnemonic_def)+
  have f: "\<not> validateMnemonic X m wl" if "mnemonicToEntropy X m wl = Inl err" for err
    using that by (simp add: validateMnemonic_def)
  have 3: "\<not> wordlist_ok wl
        \<longrightarrow> mnemonicToEntropy X m wl
              \<in> {Inl WordlistExpected2048, Inl WordlistNonString, Inl InvalidMnemonic}
          \<and> \<not> validateMnemonic X m wl"
    using invalid_wordlist_fails[of wl X m] f by auto
  have 4: "\<forall>str. m = MString str
          \<and> length (js_split 32 (normalizeNFKD X str)) \<notin> {12, 15, 18, 21, 24}
        \<longrightarrow> mnemonicToEntropy X m wl = Inl InvalidMnemonic \<and> \<not> validateMnemonic X m wl"
    using word_count_fails[of X _ wl] f by blast
  have 5: "\<forall>str. m = MString str \<and> wordlist_ok wl
          \<and> length (js_split 32 (normalizeNFKD X str)) \<in> {12, 15, 18, 21, 24}
          \<and> (\<exists>w\<in>set (js_split 32 (normalizeNFKD X str)). Some (JString w) \<notin> set wl)
        \<longrightarrow> mnemonicToEntropy X m wl = Inl UnknownLetter \<and> \<not> validateMnemonic X m wl"
    using unknown_word_fails[of wl X] f by blast
  have 6: "\<forall>ds bs. wordlist_ok wl \<and> packed_digits X m wl = Inr ds
          \<and> convertRadix2 ds 11 8 True = Inr bs
          \<and> (\<forall>e. map word_of_nat bs \<noteq> e @ calcChecksum X e)
        \<longrightarrow> mnemonicToEntropy X m wl = Inl InvalidChecksum \<and> \<not> validateMnemonic X m wl"
    using checksum_mismatch_fails[of wl X m] f by blast
  have 7: "\<forall>ds bs e. wordlist_ok wl \<and> packed_digits X m wl = Inr ds
          \<and> convertRadix2 ds 11 8 True = Inr bs
          \<and> map word_of_nat bs = e @ calcChecksum X e \<and> length e \<notin> {16, 20, 24, 28, 32}
        \<longrightarrow> mnemonicToEntropy X m wl = Inl BytesLength \<and> \<not> validateMnemonic X m wl"
    using decoded_length_fails[of wl X m] f by blast
  have 8: "length bytes \<notin> {16, 20, 24, 28, 32}
        \<longrightarrow> entropyToMnemonic X bytes wl = Inl BytesLength"
    using entropyToMnemonic_fails(1) by blast
  have 9: "\<not> wordlist_ok wl
        \<longrightarrow> (\<exists>err. entropyToMnemonic X bytes wl = Inl err)
          \<and> (\<exists>err. generateMnemonic X randomBytes wl strength = Inl err)
          \<and> (\<exists>err. generateMnemonicQBCK X request draw wl strength = Inl err)"
    using entropyToMnemonic_fails(2) generators_fail by blast
  have 10: "\<forall>str. m = MString str
          \<and> length (js_split 32 (normalizeNFKD X str)) \<notin> {12, 15, 18, 21, 24}
        \<longrightarrow> mnemonicToSeed X m wl passphrase = Inl InvalidMnemonic
          \<and> mnemonicToSeedSync X m wl passphrase = Inl InvalidMnemonic"
    by (simp add: seed_results)
  have 11: "\<forall>u. generateMnemonic X randomBytes wl strength = Inr u
        \<longrightarrow> entropyToMnemonic X (randomBytes (nat (strength div 8))) wl = Inr u"
    using generateMnemonic_value by blast
  have 12: "\<forall>u. generateMnemonicQBCK X request draw wl strength = Inr u
        \<longrightarrow> (\<exists>e. entropyToMnemonic X e wl = Inr u)"
    using generateMnemonicQBCK_value by blast
  show ?thesis
    by (intro conjI) (rule v(1), rule v(2), rule 3, rule 4, rule 5, rule 6, rule 7, rule 8,
        rule 9, rule 10, rule 11, rule 12)
qed

theorem validateMnemonic_catches_all_witness:
  "validateMnemonic demo_externals
      (MBytes (owning [0, 0, 0, 0, 0, 0, 0, 0, 0, 0, 0, 0, 0, 0, 0, 0, 0, 0, 0, 0, 0, 0, 11, 0]))
      demo_wordlist
   \<and> \<not> validateMnemonic demo_externals
      (MBytes (owning [0, 0, 0, 0, 0, 0, 0, 0, 0, 0, 0, 0, 0, 0, 0, 0, 0, 0, 0, 0, 0, 0, 11, 0]))
      (take 2047 demo_wordlist)
   \<and> mnemonicToEntropy demo_externals (MString (lit ''abc'')) demo_wordlist = Inl InvalidMnemonic
   \<and> \<not> validateMnemonic demo_externals (MString (lit ''abc'')) demo_wordlist
   \<and> mnemonicToEntropy demo_externals (MString (lit ''b a a a a a a a a a a a'')) demo_wordlist
        = Inl UnknownLetter
   \<and> \<not> validateMnemonic demo_externals (MString (lit ''b a a a a a a a a a a a'')) demo_wordlist
   \<and> mnemonicToEntropy demo_externals
        (MBytes (owning [0, 0, 0, 0, 0, 0, 0, 0, 0, 0, 0, 0, 0, 0, 0, 0, 0, 0, 0, 0, 0, 0, 10, 0]))
        demo_wordlist = Inl InvalidChecksum
   \<and> \<not> validateMnemonic demo_externals
        (MBytes (owning [0, 0, 0, 0, 0, 0, 0, 0, 0, 0, 0, 0, 0, 0, 0, 0, 0, 0, 0, 0, 0, 0, 10, 0]))
        demo_wordlist
   \<and> mnemonicToEntropy demo_externals (MBytes (owning [0, 0, 0, 0, 1, 0])) demo_wordlist
        = Inl BytesLength
   \<and> \<not> validateMnemonic demo_externals (MBytes (owning [0, 0, 0, 0, 1, 0])) demo_wordlist
   \<and> entropyToMnemonic demo_externals [0, 0, 0, 0] demo_wordlist = Inl BytesLength
   \<and> (\<exists>err. entropyToMnemonic demo_externals [0, 0, 0, 0] (take 2047 demo_wordlist) = Inl err)
   \<and> (\<exists>err. generateMnemonic demo_externals (\<lambda>n. replicate n 0) (take 2047 demo_wordlist) 128
          = Inl err)
   \<and> (\<exists>err. generateMnemonicQBCK demo_externals (\<lambda>n. Inr (replicate (8 * n) 48)) (\<lambda>i. False)
          (take 2047 demo_wordlist) 128 = Inl err)
   \<and> mnemonicToSeed demo_externals (MString (lit ''abc'')) demo_wordlist [] = Inl InvalidMnemonic
   \<and> mnemonicToSeedSync demo_externals (MString (lit ''abc'')) demo_wordlist [] = Inl InvalidMnemonic"
proof -
  let ?valid = "MBytes (owning [0, 0, 0, 0, 0, 0, 0, 0, 0, 0, 0, 0, 0, 0, 0, 0, 0, 0, 0, 0, 0, 0, 11, 0])"
  let ?flipped = "MBytes (owning [0, 0, 0, 0, 0, 0, 0, 0, 0, 0, 0, 0, 0, 0, 0, 0, 0, 0, 0, 0, 0, 0, 10, 0])"
  let ?short = "MBytes (owning [0, 0, 0, 0, 1, 0])"
  let ?abc = "MString (lit ''abc'')"
  let ?unknown = "MString (lit ''b a a a a a a a a a a a'')"
  note t1 = validateMnemonic_catches_all[where X = demo_externals and m = ?valid
      and wl = demo_wordlist]
  note t2 = validateMnemonic_catches_all[where X = demo_externals and m = ?valid
      and wl = "take 2047 demo_wordlist" and bytes = "[0, 0, 0, 0]"
      and randomBytes = "\<lambda>n. replicate n 0" and strength = 128
      and request = "\<lambda>n. Inr (replicate (8 * n) 48)" and draw = "\<lambda>i. False"]
  note t3 = validateMnemonic_catches_all[where X = demo_externals and m = ?abc
      and wl = demo_wordlist and bytes = "[0, 0, 0, 0]" and passphrase = "[]"]
  note t4 = validateMnemonic_catches_all[where X = demo_externals and m = ?unknown
      and wl = demo_wordlist]
  note t5 = validateMnemonic_catches_all[where X = demo_externals and m = ?flipped
      and wl = demo_wordlist]
  note t6 = validateMnemonic_catches_all[where X = demo_externals and m = ?short
      and wl = demo_wordlist]
  have 1: "validateMnemonic demo_externals ?valid demo_wordlist"
    using t1[THEN conjunct1] demo_decode by blast
  have 2: "\<not> validateMnemonic demo_externals ?valid (take 2047 demo_wordlist)"
    using t2[THEN conjunct2, THEN conjunct2, THEN conjunct1] demo_short_list by blast
  have c3: "length (js_split 32 (normalizeNFKD demo_externals (lit ''abc''))) \<notin> {12, 15, 18, 21, 24}"
    by (simp add: demo_externals_def lit_def)
  have 3: "mnemonicToEntropy demo_externals ?abc demo_wordlist = Inl InvalidMnemonic
      \<and> \<not> validateMnemonic demo_externals ?abc demo_wordlist"
    using t3[THEN conjunct2, THEN conjunct2, THEN conjunct2, THEN conjunct1] c3 by blast
  have n4: "normalizeNFKD demo_externals (lit ''b a a a a a a a a a a a'')
      = lit ''b a a a a a a a a a a a''"
    by (simp add: demo_externals_def)
  have c4: "length (js_split 32 (normalizeNFKD demo_externals (lit ''b a a a a a a a a a a a'')))
      \<in> {12, 15, 18, 21, 24}"
    by (simp add: n4 demo_unknown)
  have d4: "\<exists>w\<in>set (js_split 32 (normalizeNFKD demo_externals (lit ''b a a a a a a a a a a a''))).
      Some (JString w) \<notin> set demo_wordlist"
    using demo_unknown(2) by (simp add: n4 demo_unknown(1))
  have 4: "mnemonicToEntropy demo_externals ?unknown demo_wordlist = Inl UnknownLetter
      \<and> \<not> validateMnemonic demo_externals ?unknown demo_wordlist"
    using t4[THEN conjunct2, THEN conjunct2, THEN conjunct2, THEN conjunct2, THEN conjunct1] demo_ok c4 d4 by blast
  have 5: "mnemonicToEntropy demo_externals ?flipped demo_wordlist = Inl InvalidChecksum
      \<and> \<not> validateMnemonic demo_externals ?flipped demo_wordlist"
    using t5[THEN conjunct2, THEN conjunct2, THEN conjunct2, THEN conjunct2, THEN conjunct2, THEN conjunct1] demo_ok demo_flip_digits(2) demo_radix(1) demo_mismatch by blast
  have m6: "map word_of_nat [0, 0, 0, 0, 128::nat] = [0, 0, 0, 0] @ calcChecksum demo_externals [0, 0, 0, 0]"
    by (simp add: demo_checksum4)
  have l6: "length [0, 0, 0, 0::byte] \<notin> {16, 20, 24, 28, 32}" by simp
  have 6: "mnemonicToEntropy demo_externals ?short demo_wordlist = Inl BytesLength
      \<and> \<not> validateMnemonic demo_externals ?short demo_wordlist"
    using t6[THEN conjunct2, THEN conjunct2, THEN conjunct2, THEN conjunct2, THEN conjunct2, THEN conjunct2, THEN conjunct1] demo_ok demo_short_packed demo_radix(2) m6 l6 by blast
  have 7: "entropyToMnemonic demo_externals [0, 0, 0, 0] demo_wordlist = Inl BytesLength"
    using t3[THEN conjunct2, THEN conjunct2, THEN conjunct2, THEN conjunct2, THEN conjunct2, THEN conjunct2, THEN conjunct2, THEN conjunct1] l6 by blast
  have 8: "(\<exists>err. entropyToMnemonic demo_externals [0, 0, 0, 0] (take 2047 demo_wordlist) = Inl err)
      \<and> (\<exists>err. generateMnemonic demo_externals (\<lambda>n. replicate n 0) (take 2047 demo_wordlist) 128
          = Inl err)
      \<and> (\<exists>err. generateMnemonicQBCK demo_externals (\<lambda>n. Inr (replicate (8 * n) 48)) (\<lambda>i. False)
          (take 2047 demo_wordlist) 128 = Inl err)"
    using t2[THEN conjunct2, THEN conjunct2, THEN conjunct2, THEN conjunct2, THEN conjunct2, THEN conjunct2, THEN conjunct2, THEN conjunct2, THEN conjunct1] demo_short_list by blast
  have 9: "mnemonicToSeed demo_externals ?abc demo_wordlist [] = Inl InvalidMnemonic
      \<and> mnemonicToSeedSync demo_externals ?abc demo_wordlist [] = Inl InvalidMnemonic"
    using t3[THEN conjunct2, THEN conjunct2, THEN conjunct2, THEN conjunct2, THEN conjunct2, THEN conjunct2, THEN conjunct2, THEN conjunct2, THEN conjunct2, THEN conjunct1] c3 by blast
  show ?thesis using 1 2 3 4 5 6 7 8 9 by blast
qed







text \<open>
  Claim C8. For a string mnemonic \<^verbatim>\<open>mnemonicToEntropy\<close> first normalises to NFKD, with
  the host's \<^verbatim>\<open>String.prototype.normalize('NFKD')\<close>, and then splits the result at every
  single space: the pieces hold no space, joined by single spaces they give the normalised
  string back, and they are the only such pieces. It fails with \<^verbatim>\<open>Invalid mnemonic\<close> if
  and only if the number of pieces is not 12, 15, 18, 21 or 24; otherwise the pieces go on
  to the decoder. In the instances a no-break space, which NFKD turns into a space, makes
  12 pieces of 11 and 13 of 12: the count is taken after the normalisation.
\<close>

theorem mnemonicToEntropy_word_count:
  "(mnemonicToEntropy X (MString str) wordlist = Inl InvalidMnemonic)
     = (length (js_split 32 (normalizeNFKD X str)) \<notin> {12, 15, 18, 21, 24})
   \<and> mnemonicToEntropy X (MString str) wordlist =
       (if length (js_split 32 (normalizeNFKD X str)) \<notin> {12, 15, 18, 21, 24} then Inl InvalidMnemonic
        else bind_err (getCoder X wordlist) (\<lambda>coder.
             bind_err (decode coder (map JString (js_split 32 (normalizeNFKD X str)))) (\<lambda>entropy.
             bind_err (assertEntropy entropy) (\<lambda>_. Inr entropy))))
   \<and> js_join 32 (js_split 32 (normalizeNFKD X str)) = normalizeNFKD X str
   \<and> list_all (\<lambda>w. 32 \<notin> set w) (js_split 32 (normalizeNFKD X str))
   \<and> (\<forall>ws. ws \<noteq> [] \<and> (\<forall>w\<in>set ws. 32 \<notin> set w) \<and> js_join 32 ws = normalizeNFKD X str
          \<longrightarrow> js_split 32 (normalizeNFKD X str) = ws)"
proof -
  let ?words = "js_split 32 (normalizeNFKD X str)"
  have n: "normalize_str X str =
      (if length ?words \<notin> {12, 15, 18, 21, 24} then Inl InvalidMnemonic
       else Inr (normalizeNFKD X str, ?words))"
    by (simp add: normalize_str_def nfkd_def Let_def)
  have b: "mnemonicToEntropy X (MString str) wordlist =
       (if length ?words \<notin> {12, 15, 18, 21, 24} then Inl InvalidMnemonic
        else bind_err (getCoder X wordlist) (\<lambda>coder.
             bind_err (decode coder (map JString ?words)) (\<lambda>entropy.
             bind_err (assertEntropy entropy) (\<lambda>_. Inr entropy))))"
    by (simp only: mnemonicToEntropy_string n) simp
  have a: "(mnemonicToEntropy X (MString str) wordlist = Inl InvalidMnemonic)
     = (length ?words \<notin> {12, 15, 18, 21, 24})"
  proof (cases "length ?words \<notin> {12, 15, 18, 21, 24}")
    case True
    then show ?thesis using b by simp
  next
    case False
    then have "normalize_str X str = Inr (normalizeNFKD X str, ?words)" using n by simp
    then have "mnemonicToEntropy X (MString str) wordlist \<noteq> Inl InvalidMnemonic"
      using mnemonicToEntropy_string_ok_err[of X str "normalizeNFKD X str" ?words wordlist InvalidMnemonic]
      by (auto simp add: codec_errors_def)
    then show ?thesis using False by simp
  qed
  have u: "\<forall>ws. ws \<noteq> [] \<and> (\<forall>w\<in>set ws. 32 \<notin> set w) \<and> js_join 32 ws = normalizeNFKD X str
          \<longrightarrow> ?words = ws"
    using js_split_join[of _ 32] by metis
  show ?thesis
    using a b u js_join_split[of 32 "normalizeNFKD X str"] js_split_no_sep[of 32 "normalizeNFKD X str"]
    by blast
qed

theorem mnemonicToEntropy_word_count_witness:
  "length (js_split 32 nbsp_phrase) = 11
   \<and> length (js_split 32 (normalizeNFKD demo_externals_nfkd nbsp_phrase)) = 12
   \<and> mnemonicToEntropy demo_externals_nfkd (MString nbsp_phrase) demo_wordlist \<noteq> Inl InvalidMnemonic
   \<and> length (js_split 32 nbsp_phrase13) = 12
   \<and> length (js_split 32 (normalizeNFKD demo_externals_nfkd nbsp_phrase13)) = 13
   \<and> mnemonicToEntropy demo_externals_nfkd (MString nbsp_phrase13) demo_wordlist = Inl InvalidMnemonic"
proof -
  have a: "length (js_split 32 nbsp_phrase) = 11" "length (js_split 32 nbsp_phrase13) = 12"
    by (simp_all add: nbsp_phrase_def nbsp_phrase13_def)
  have b: "length (js_split 32 (normalizeNFKD demo_externals_nfkd nbsp_phrase)) = 12"
    "length (js_split 32 (normalizeNFKD demo_externals_nfkd nbsp_phrase13)) = 13"
    by (simp_all add: demo_nfkd2 decompose_nbsp)
  have "(mnemonicToEntropy demo_externals_nfkd (MString nbsp_phrase) demo_wordlist = Inl InvalidMnemonic)
      = (length (js_split 32 (normalizeNFKD demo_externals_nfkd nbsp_phrase)) \<notin> {12, 15, 18, 21, 24})"
    using mnemonicToEntropy_word_count[of demo_externals_nfkd nbsp_phrase demo_wordlist] by blast
  then have c: "mnemonicToEntropy demo_externals_nfkd (MString nbsp_phrase) demo_wordlist
      \<noteq> Inl InvalidMnemonic"
    by (simp add: b(1))
  have "(mnemonicToEntropy demo_externals_nfkd (MString nbsp_phrase13) demo_wordlist = Inl InvalidMnemonic)
      = (length (js_split 32 (normalizeNFKD demo_externals_nfkd nbsp_phrase13)) \<notin> {12, 15, 18, 21, 24})"
    using mnemonicToEntropy_word_count[of demo_externals_nfkd nbsp_phrase13 demo_wordlist] by blast
  then have d: "mnemonicToEntropy demo_externals_nfkd (MString nbsp_phrase13) demo_wordlist
      = Inl InvalidMnemonic"
    by (simp add: b(2))
  show ?thesis using a b c d by blast
qed

text \<open>
  Claim C9, as stated, fails on a byte array of even length that is a view into a buffer
  of odd length: the source reads \<^verbatim>\<open>mnemonic.buffer\<close>, the whole buffer.
\<close>

theorem binary_seed_even_view_counterexample:
  "even (byteLength \<lparr>buffer = [0, 0, 0], byteOffset = 0, byteLength = 2\<rparr>)
   \<and> mnemonicToSeedSync demo_externals
        (MBytes \<lparr>buffer = [0, 0, 0], byteOffset = 0, byteLength = 2\<rparr>) demo_wordlist []
       = Inl Uint16RangeError
   \<and> mnemonicToSeed demo_externals
        (MBytes \<lparr>buffer = [0, 0, 0], byteOffset = 0, byteLength = 2\<rparr>) demo_wordlist []
       = Inl Uint16RangeError"
  by (simp add: mnemonicToSeedSync_def mnemonicToSeed_def encodeMnemonic_bytes)

text \<open>
  Claim C9, amended. For a binary mnemonic of even byte length that owns its whole
  buffer, and every wordlist, \<^verbatim>\<open>mnemonicToSeed\<close> and \<^verbatim>\<open>mnemonicToSeedSync\<close> derive the
  PBKDF2 password as the UTF-8 bytes of the wordlist entries at the mnemonic's 16-bit
  indices joined by single spaces, with no NFKD normalisation of it and no check of the
  word count, the index range or the wordlist; an index at or past the end of the wordlist
  contributes the empty string, and the seed still has 64 bytes (PBKDF2 returns \<open>dkLen\<close>
  bytes, the last two hypotheses).
\<close>

theorem binary_seed_password:
  assumes "even (byteLength u)" and "byteOffset u = 0" and "byteLength u = length (buffer u)"
    and "\<And>password s c dkLen. length (pbkdf2 X (sha512 X) password s c dkLen) = dkLen"
    and "\<And>password s c dkLen. length (pbkdf2Async X (sha512 X) password s c dkLen) = dkLen"
  shows "mnemonicToSeedSync X (MBytes u) wordlist passphrase
           = Inr (pbkdf2 X (sha512 X)
                   (utf8 X (js_join 32 (map (\<lambda>i. join_text (wl_get wordlist i))
                                             (uint16_elems (buffer u)))))
                   (utf8 X (salt X passphrase)) 2048 64)
       \<and> mnemonicToSeed X (MBytes u) wordlist passphrase
           = Inr (pbkdf2Async X (sha512 X)
                   (utf8 X (js_join 32 (map (\<lambda>i. join_text (wl_get wordlist i))
                                             (uint16_elems (buffer u)))))
                   (utf8 X (salt X passphrase)) 2048 64)
       \<and> (\<exists>seed. mnemonicToSeedSync X (MBytes u) wordlist passphrase = Inr seed \<and> length seed = 64)
       \<and> (\<exists>seed. mnemonicToSeed X (MBytes u) wordlist passphrase = Inr seed \<and> length seed = 64)
       \<and> join_text (wl_get wordlist (length wordlist + k)) = []"
  using assms
  by (simp add: mnemonicToSeedSync_def mnemonicToSeed_def encodeMnemonic_bytes wl_get_def join_text_def)

theorem binary_seed_password_witness:
  "even (byteLength (owning [1, 8, 2, 0]))
   \<and> byteLength (owning [1, 8, 2, 0]) = length (buffer (owning [1, 8, 2, 0]))
   \<and> uint16_elems (buffer (owning [1, 8, 2, 0])) = [2049, 2]
   \<and> mnemonicToSeedSync demo_externals (MBytes (owning [1, 8, 2, 0])) demo_wordlist []
        = Inr (pbkdf2 demo_externals (sha512 demo_externals) (utf8 demo_externals (lit '' aaa''))
                 (utf8 demo_externals (lit ''mnemonic'')) 2048 64)"
proof -
  have a: "even (byteLength (owning [1, 8, 2, 0]))" "byteOffset (owning [1, 8, 2, 0]) = 0"
    "byteLength (owning [1, 8, 2, 0]) = length (buffer (owning [1, 8, 2, 0]))"
    by (simp_all add: owning_def)
  have b: "uint16_elems (buffer (owning [1, 8, 2, 0])) = [2049, 2]" by (simp add: owning_def)
  have c: "wl_get demo_wordlist 2049 = JUndefined" "wl_get demo_wordlist 2 = JString (lit ''aaa'')"
    by (simp_all add: wl_get_def demo_wordlist_def demo_words_def lit_def)
  have d: "salt demo_externals [] = lit ''mnemonic''" by (simp add: salt_def demo_nfkd)
  show ?thesis
    using a b binary_seed_password[OF a demo_pbkdf2_length(1) demo_pbkdf2_length(2), of demo_wordlist "[]" 0]
    by (simp add: c d join_text_def lit_def)
qed

text \<open>
  Claim C10. For a binary mnemonic of odd byte length that owns its whole buffer,
  \<^verbatim>\<open>new Uint16Array(mnemonic.buffer)\<close> fails, so \<^verbatim>\<open>mnemonicToEntropy\<close>,
  \<^verbatim>\<open>mnemonicToSeed\<close> and \<^verbatim>\<open>mnemonicToSeedSync\<close> fail and \<^verbatim>\<open>validateMnemonic\<close> is false.
\<close>

theorem odd_binary_mnemonic_fails:
  assumes "odd (byteLength u)" and "byteOffset u = 0" and "byteLength u = length (buffer u)"
  shows "uint16_of_buffer (buffer u) = Inl Uint16RangeError
       \<and> mnemonicToEntropy X (MBytes u) wordlist
            \<in> {Inl Uint16RangeError, Inl WordlistExpected2048, Inl WordlistNonString}
       \<and> mnemonicToSeed X (MBytes u) wordlist passphrase = Inl Uint16RangeError
       \<and> mnemonicToSeedSync X (MBytes u) wordlist passphrase = Inl Uint16RangeError
       \<and> \<not> validateMnemonic X (MBytes u) wordlist"
proof -
  have r: "uint16_of_buffer (buffer u) = Inl Uint16RangeError"
    using assms(1,3) by (simp add: uint16_of_buffer_def)
  have m: "mnemonicToEntropy X (MBytes u) wordlist
            \<in> {Inl Uint16RangeError, Inl WordlistExpected2048, Inl WordlistNonString}"
    using getCoder_cases[of wordlist X] by (auto simp add: mnemonicToEntropy_def r)
  then have v: "\<not> validateMnemonic X (MBytes u) wordlist"
    by (auto simp add: validateMnemonic_def)
  have s: "encodeMnemonicForSeedDerivation X (MBytes u) wordlist = Inl Uint16RangeError"
    by (simp add: encodeMnemonicForSeedDerivation_def r)
  show ?thesis using r m v s by (simp add: mnemonicToSeed_def mnemonicToSeedSync_def)
qed

theorem odd_binary_mnemonic_fails_witness:
  "odd (byteLength (owning [1, 0, 3])) \<and> byteOffset (owning [1, 0, 3]) = 0
   \<and> byteLength (owning [1, 0, 3]) = length (buffer (owning [1, 0, 3]))
   \<and> mnemonicToEntropy demo_externals (MBytes (owning [1, 0, 3])) demo_wordlist = Inl Uint16RangeError
   \<and> mnemonicToSeed demo_externals (MBytes (owning [1, 0, 3])) demo_wordlist [] = Inl Uint16RangeError
   \<and> mnemonicToSeedSync demo_externals (MBytes (owning [1, 0, 3])) demo_wordlist [] = Inl Uint16RangeError
   \<and> \<not> validateMnemonic demo_externals (MBytes (owning [1, 0, 3])) demo_wordlist"
proof -
  have a: "odd (byteLength (owning [1, 0, 3]))" "byteOffset (owning [1, 0, 3]) = 0"
    "byteLength (owning [1, 0, 3]) = length (buffer (owning [1, 0, 3]))"
    by (simp_all add: owning_def)
  have ok: "wordlist_ok demo_wordlist"
    unfolding demo_wordlist_def by (rule strings_ok) (rule demo_words_facts)
  then have g: "getCoder demo_externals demo_wordlist \<notin> {Inl WordlistExpected2048, Inl WordlistNonString}"
    using getCoder_cases[of demo_wordlist demo_externals] by auto
  have "mnemonicToEntropy demo_externals (MBytes (owning [1, 0, 3])) demo_wordlist = Inl Uint16RangeError"
    using getCoder_ok[OF ok, of demo_externals]
    by (auto simp add: mnemonicToEntropy_def uint16_of_buffer_def owning_def)
  then show ?thesis
    using a odd_binary_mnemonic_fails[OF a, of demo_externals demo_wordlist "[]"] by simp
qed

end
